theory Spec2Isabelle
  imports Complex_Main "HOL-Library.FSet" "HOL-Library.Char_ord" "HOL-Library.List_Lexorder"
begin

section \<open>The scraper of \<^verbatim>\<open>WS.py\<close>: data model\<close>

text \<open>
  The embedding follows class \<^verbatim>\<open>AdvancedScraper\<close>. Python strings are \<open>string\<close>
  (compared with \<open>=\<close>, and ordered lexicographically by character code as Python orders
  \<^verbatim>\<open>str\<close>), Python integers are \<open>int\<close>, the set \<^verbatim>\<open>self.visited\<close> is a finite set,
  the lists \<^verbatim>\<open>self.data\<close>, \<^verbatim>\<open>self.proxies\<close> and \<^verbatim>\<open>queue\<close> are lists.
  Whatever the program reads from outside (the network, the clock, the file
  \<^verbatim>\<open>proxies.txt\<close>) is a parameter \<open>world\<close>; the library functions it calls
  (\<^verbatim>\<open>urlparse\<close>, \<^verbatim>\<open>urljoin\<close>, \<^verbatim>\<open>BeautifulSoup\<close>, \<^verbatim>\<open>re.findall\<close>) are a parameter
  \<open>lib\<close>. Every theorem holds for all of them.
\<close>

text \<open>
  The exceptions that leave a method of the class: \<^verbatim>\<open>TypeError\<close> and \<^verbatim>\<open>ValueError\<close>
  raised by the interpreter (subscripting a list with a string, \<^verbatim>\<open>min\<close> of nothing),
  \<open>Raised e\<close> for an exception with text \<open>e\<close> raised inside a library call
  (\<^verbatim>\<open>urljoin\<close> and \<^verbatim>\<open>urlparse\<close> raise \<^verbatim>\<open>ValueError: Invalid IPv6 URL\<close> on
  \<^verbatim>\<open>http://[\<close>), and \<open>NormalizeError\<close> for what \<^verbatim>\<open>pd.json_normalize\<close> raises on a
  list with an item that is not a dict.
\<close>

datatype py_error = TypeError | ValueError | Raised string | NormalizeError

text \<open>The outcome of a call that may raise an exception of class \<^verbatim>\<open>Exception\<close>.\<close>

datatype 'a attempt = Raises string | Returns 'a

text \<open>What \<^verbatim>\<open>session.get\<close> yields: the status, and what \<^verbatim>\<open>await response.text()\<close> does.\<close>

record response =
  status :: int
  body :: "string attempt"

text \<open>The six fields of \<^verbatim>\<open>urllib.parse.ParseResult\<close>.\<close>

record parsed_url =
  scheme :: string
  netloc :: string
  path :: string
  params :: string
  query :: string
  fragment :: string

text \<open>
  A tag as \<^verbatim>\<open>parse_page\<close> reads it: its attributes (\<^verbatim>\<open>tag.get\<close>) and its text.
  The soup is what \<^verbatim>\<open>soup.title\<close> and the three \<^verbatim>\<open>soup.find_all\<close> calls return;
  \<open>soup_title\<close> is \<open>None\<close> without a title tag, else the tag's \<^verbatim>\<open>.string\<close>.
\<close>

record tag =
  tag_attrs :: "(string \<times> string) list"
  tag_text :: string

record form_tag =
  form_attrs :: "(string \<times> string) list"
  form_inputs :: "tag list"

record soup =
  soup_title :: "string option option"
  soup_a :: "tag list"
  soup_form :: "form_tag list"
  soup_meta :: "tag list"

text \<open>
  The library calls. \<^verbatim>\<open>urlparse\<close>, \<^verbatim>\<open>urljoin\<close> and \<^verbatim>\<open>BeautifulSoup\<close> may raise on the
  text of a page or of a link; \<^verbatim>\<open>re.findall\<close> with the two fixed patterns returns a
  list for every string.
\<close>

record lib =
  urlparse :: "string \<Rightarrow> parsed_url attempt"
  urljoin :: "string \<Rightarrow> string \<Rightarrow> string attempt"
  BeautifulSoup :: "string \<Rightarrow> soup attempt"
  findall_email :: "string \<Rightarrow> string list"
  findall_phone :: "string \<Rightarrow> string list"

text \<open>
  \<open>session_get\<close> answers a request given the URLs requested before it, so the same URL
  may be answered differently at different times; \<open>now\<close> is \<^verbatim>\<open>datetime.now().isoformat()\<close>
  at the parse that follows the \<open>n\<close>-th request; \<open>proxies_txt\<close> is the lines of
  \<^verbatim>\<open>proxies.txt\<close>, or \<open>None\<close> when opening it raises \<^verbatim>\<open>FileNotFoundError\<close>.
\<close>

record world =
  session_get :: "string list \<Rightarrow> string \<Rightarrow> response attempt"
  now :: "nat \<Rightarrow> string"
  proxies_txt :: "string list option"

record link =
  link_text :: string
  link_url :: string

record input_data =
  input_name :: "string option"
  input_type :: "string option"
  input_id :: "string option"

record form_data =
  form_action :: "string option"
  form_method :: "string option"
  inputs :: "input_data list"

record page_data =
  url :: string
  timestamp :: string
  title :: "string option"
  links :: "link list"
  emails :: "string list"
  phones :: "string list"
  forms :: "form_data list"
  metadata :: "string \<rightharpoonup> string"

text \<open>What \<^verbatim>\<open>parse_page\<close> returns: the empty list \<^verbatim>\<open>[]\<close>, or the dict \<^verbatim>\<open>page_data\<close>.\<close>

datatype parsed_page = EmptyList | PageData page_data

datatype log_entry =
    Crawling string
  | FailedToFetch string int
  | ErrorFetching string string

text \<open>
  The object \<^verbatim>\<open>self\<close>, the two locals of \<^verbatim>\<open>crawl\<close> (\<open>connector\<close>, \<open>queue\<close>), and the
  effects of a run: the log lines written, the URLs passed to \<^verbatim>\<open>session.get\<close> in order,
  and the arguments of the \<^verbatim>\<open>asyncio.sleep\<close> calls in order.
\<close>

record scraper =
  base_url :: string
  delay :: real
  visited :: "string fset"
  data :: "parsed_page list"
  proxies :: "string list"
  current_proxy :: int
  connector :: "string option"
  queue :: "string list"
  logged :: "log_entry list"
  fetched :: "string list"
  slept :: "real list"

section \<open>Python's string operations\<close>

text \<open>
  \<^verbatim>\<open>str.isspace\<close> on code points below 256, \<^verbatim>\<open>str.strip()\<close>, \<^verbatim>\<open>str.endswith\<close> with
  a string and with a tuple of strings, and the truth value of \<^verbatim>\<open>None\<close> or a string.
\<close>

definition isspace :: "char \<Rightarrow> bool" where
  "isspace c = (of_char c \<in> {9, 10, 11, 12, 13, 28, 29, 30, 31, 32, 133, 160 :: nat})"

definition strip :: "string \<Rightarrow> string" where
  "strip t = rev (dropWhile isspace (rev (dropWhile isspace t)))"

definition endswith :: "string \<Rightarrow> string \<Rightarrow> bool" where
  "endswith t suf = (length suf \<le> length t \<and> drop (length t - length suf) t = suf)"

definition endswith_any :: "string \<Rightarrow> string list \<Rightarrow> bool" where
  "endswith_any t sufs = list_ex (endswith t) sufs"

definition truthy :: "string option \<Rightarrow> bool" where
  "truthy h = (case h of None \<Rightarrow> False | Some t \<Rightarrow> t \<noteq> [])"

text \<open>
  \<^verbatim>\<open>list(set(xs))\<close>: the distinct elements of \<open>xs\<close>. Python leaves their order open;
  nothing below depends on it.
\<close>

definition list_set :: "string list \<Rightarrow> string list" where
  "list_set xs = remdups xs"

section \<open>Construction and the proxy rotator\<close>

definition load_proxies :: "world \<Rightarrow> string list" where
  "load_proxies w =
     (case proxies_txt w of
        None \<Rightarrow> []
      | Some lines \<Rightarrow> map strip (filter (\<lambda>line. strip line \<noteq> []) lines))"

definition init :: "world \<Rightarrow> string \<Rightarrow> real \<Rightarrow> scraper" where
  "init w b d =
     \<lparr>base_url = b, delay = d, visited = {||}, data = [], proxies = load_proxies w,
      current_proxy = 0, connector = None, queue = [], logged = [], fetched = [],
      slept = []\<rparr>"

definition rotate_proxy :: "scraper \<Rightarrow> string option \<times> scraper" where
  "rotate_proxy s =
     (if proxies s \<noteq> [] then
        let c = (current_proxy s + 1) mod int (length (proxies s))
        in (Some (proxies s ! nat c), s\<lparr>current_proxy := c\<rparr>)
      else (None, s))"

text \<open>\<open>k\<close> successive calls of \<^verbatim>\<open>rotate_proxy\<close>: what they return, in order, and the final state.\<close>

fun rotations :: "nat \<Rightarrow> scraper \<Rightarrow> string option list \<times> scraper" where
  "rotations 0 s = ([], s)"
| "rotations (Suc k) s =
     (let (p, s1) = rotate_proxy s; (ps, s2) = rotations k s1 in (p # ps, s2))"

section \<open>The fetcher\<close>

text \<open>
  \<open>fetch_page_try\<close> is the body of the \<^verbatim>\<open>try\<close>: one \<^verbatim>\<open>session.get\<close>, recorded in
  \<open>fetched\<close>, then the status test. \<open>fetch_page\<close> adds the handler
  \<^verbatim>\<open>except Exception\<close>, which logs and returns \<^verbatim>\<open>None\<close>.
\<close>

definition fetch_page_try :: "world \<Rightarrow> string \<Rightarrow> scraper \<Rightarrow> string option attempt \<times> scraper" where
  "fetch_page_try w u s =
     (let s1 = s\<lparr>fetched := fetched s @ [u]\<rparr> in
      case session_get w (fetched s) u of
        Raises e \<Rightarrow> (Raises e, s1)
      | Returns r \<Rightarrow>
          if status r = 200 then
            (case body r of
               Raises e \<Rightarrow> (Raises e, s1)
             | Returns t \<Rightarrow> (Returns (Some t), s1))
          else (Returns None, s1\<lparr>logged := logged s1 @ [FailedToFetch u (status r)]\<rparr>))"

definition fetch_page :: "world \<Rightarrow> string \<Rightarrow> scraper \<Rightarrow> string option \<times> scraper" where
  "fetch_page w u s =
     (case fetch_page_try w u s of
        (Returns h, s1) \<Rightarrow> (h, s1)
      | (Raises e, s1) \<Rightarrow> (None, s1\<lparr>logged := logged s1 @ [ErrorFetching u e]\<rparr>))"

section \<open>The page extractor\<close>

definition tag_get :: "(string \<times> string) list \<Rightarrow> string \<Rightarrow> string option" where
  "tag_get attrs k = map_of attrs k"

text \<open>
  The loop over \<^verbatim>\<open>soup.find_all('a')\<close>: the anchors in document order, one
  \<^verbatim>\<open>urljoin\<close> for each anchor with a non-empty \<^verbatim>\<open>href\<close>; the first \<^verbatim>\<open>urljoin\<close> that
  raises ends the loop and the exception leaves \<^verbatim>\<open>parse_page\<close>.
\<close>

fun extract_links :: "lib \<Rightarrow> string \<Rightarrow> tag list \<Rightarrow> link list attempt" where
  "extract_links l u [] = Returns []"
| "extract_links l u (a # tags) =
     (case tag_get (tag_attrs a) ''href'' of
        None \<Rightarrow> extract_links l u tags
      | Some href \<Rightarrow>
          if href = [] then extract_links l u tags
          else
            (case urljoin l u href of
               Raises e \<Rightarrow> Raises e
             | Returns full_url \<Rightarrow>
                 (case extract_links l u tags of
                    Raises e \<Rightarrow> Raises e
                  | Returns ks \<Rightarrow>
                      Returns (\<lparr>link_text = strip (tag_text a), link_url = full_url\<rparr> # ks))))"

definition extract_input :: "tag \<Rightarrow> input_data" where
  "extract_input i =
     \<lparr>input_name = tag_get (tag_attrs i) ''name'',
      input_type = tag_get (tag_attrs i) ''type'',
      input_id = tag_get (tag_attrs i) ''id''\<rparr>"

definition extract_form :: "form_tag \<Rightarrow> form_data" where
  "extract_form f =
     \<lparr>form_action = tag_get (form_attrs f) ''action'',
      form_method = tag_get (form_attrs f) ''method'',
      inputs = map extract_input (form_inputs f)\<rparr>"

definition meta_name :: "tag \<Rightarrow> string" where
  "meta_name m =
     (case tag_get (tag_attrs m) ''name'' of
        Some n \<Rightarrow> n
      | None \<Rightarrow> (case tag_get (tag_attrs m) ''property'' of Some p \<Rightarrow> p | None \<Rightarrow> []))"

definition meta_content :: "tag \<Rightarrow> string" where
  "meta_content m = (case tag_get (tag_attrs m) ''content'' of Some c \<Rightarrow> c | None \<Rightarrow> [])"

definition extract_metadata :: "tag list \<Rightarrow> (string \<rightharpoonup> string)" where
  "extract_metadata ms =
     fold (\<lambda>m acc. if meta_name m \<noteq> [] \<and> meta_content m \<noteq> []
                    then acc(meta_name m \<mapsto> meta_content m) else acc) ms Map.empty"

text \<open>
  \<open>parse_page l t html u\<close> is \<^verbatim>\<open>self.parse_page(html, url)\<close> when
  \<^verbatim>\<open>datetime.now().isoformat()\<close> is \<open>t\<close>. It returns \<^verbatim>\<open>[]\<close> or the dict, or an
  exception raised by \<^verbatim>\<open>BeautifulSoup\<close> or by \<^verbatim>\<open>urljoin\<close> leaves it.
\<close>

definition parse_page :: "lib \<Rightarrow> string \<Rightarrow> string option \<Rightarrow> string \<Rightarrow> parsed_page attempt" where
  "parse_page l t html u =
     (case html of
        None \<Rightarrow> Returns EmptyList
      | Some h \<Rightarrow>
          if h = [] then Returns EmptyList
          else
            (case BeautifulSoup l h of
               Raises e \<Rightarrow> Raises e
             | Returns sp \<Rightarrow>
                 (case extract_links l u (soup_a sp) of
                    Raises e \<Rightarrow> Raises e
                  | Returns ks \<Rightarrow>
                      Returns (PageData
                        \<lparr>url = u,
                         timestamp = t,
                         title = (case soup_title sp of None \<Rightarrow> None | Some str \<Rightarrow> str),
                         links = ks,
                         emails = list_set (findall_email l h),
                         phones = list_set (findall_phone l h),
                         forms = map extract_form (soup_form sp),
                         metadata = extract_metadata (soup_meta sp)\<rparr>))))"

section \<open>The crawl loop\<close>

text \<open>
  \<^verbatim>\<open>should_crawl\<close>: the two \<^verbatim>\<open>urlparse\<close> calls, either of which may raise, then the
  conjunction. The suffix test is \<^verbatim>\<open>url.endswith(...)\<close> on the URL string itself.
\<close>

definition should_crawl :: "lib \<Rightarrow> scraper \<Rightarrow> string \<Rightarrow> bool attempt" where
  "should_crawl l s u =
     (case urlparse l u of
        Raises e \<Rightarrow> Raises e
      | Returns parsed \<Rightarrow>
          (case urlparse l (base_url s) of
             Raises e \<Rightarrow> Raises e
           | Returns base_parsed \<Rightarrow>
               Returns (netloc parsed = netloc base_parsed \<and>
                        u |\<notin>| visited s \<and>
                        \<not> endswith_any u [''.pdf'', ''.jpg'', ''.png'', ''.gif''])))"

text \<open>
  The \<^verbatim>\<open>for link in page_data['links']\<close> loop, one link after the other. When
  \<^verbatim>\<open>should_crawl\<close> raises the loop ends there: \<open>Inl\<close> carries the exception and the
  state it leaves, with the links appended before it.
\<close>

fun enqueue_links :: "lib \<Rightarrow> link list \<Rightarrow> scraper \<Rightarrow> (py_error \<times> scraper) + scraper" where
  "enqueue_links l [] s = Inr s"
| "enqueue_links l (k # ks) s =
     (case should_crawl l s (link_url k) of
        Raises e \<Rightarrow> Inl (Raised e, s)
      | Returns ok \<Rightarrow>
          enqueue_links l ks (if ok then s\<lparr>queue := queue s @ [link_url k]\<rparr> else s))"

text \<open>
  The block under \<^verbatim>\<open>if html:\<close>. An exception that leaves \<^verbatim>\<open>parse_page\<close> leaves the
  block before the append. Subscripting the list \<^verbatim>\<open>[]\<close> with \<^verbatim>\<open>'links'\<close> raises
  \<^verbatim>\<open>TypeError\<close> after the append.
\<close>

definition handle_html ::
  "world \<Rightarrow> lib \<Rightarrow> string \<Rightarrow> string option \<Rightarrow> scraper \<Rightarrow> (py_error \<times> scraper) + scraper" where
  "handle_html w l u html s =
     (if truthy html then
        (case parse_page l (now w (length (fetched s))) html u of
           Raises e \<Rightarrow> Inl (Raised e, s)
         | Returns page \<Rightarrow>
             let s1 = s\<lparr>data := data s @ [page]\<rparr>
             in (case page of
                   EmptyList \<Rightarrow> Inl (TypeError, s1)
                 | PageData p \<Rightarrow> enqueue_links l (links p) s1))
      else Inr s)"

definition loop_cond :: "int option \<Rightarrow> scraper \<Rightarrow> bool" where
  "loop_cond max_pages s =
     (queue s \<noteq> [] \<and>
      (case max_pages of None \<Rightarrow> True | Some n \<Rightarrow> int (fcard (visited s)) < n))"

text \<open>
  One evaluation of the \<^verbatim>\<open>while\<close> condition and, when it holds, one pass through the
  body: \<open>Exit\<close> when the loop ends, \<open>Continue\<close> with the state at the next evaluation of
  the condition, \<open>Abort\<close> when the body raises, with the exception and the state it
  leaves (no \<^verbatim>\<open>asyncio.sleep\<close> follows).
\<close>

datatype step = Exit | Continue scraper | Abort py_error scraper

definition mark_visited :: "string \<Rightarrow> scraper \<Rightarrow> scraper" where
  "mark_visited u s = s\<lparr>visited := finsert u (visited s), logged := logged s @ [Crawling u]\<rparr>"

definition crawl_step :: "world \<Rightarrow> lib \<Rightarrow> int option \<Rightarrow> scraper \<Rightarrow> step" where
  "crawl_step w l max_pages s =
     (if \<not> loop_cond max_pages s then Exit
      else
        case queue s of
          [] \<Rightarrow> Exit
        | u # rest \<Rightarrow>
            let s1 = s\<lparr>queue := rest\<rparr> in
            if u |\<in>| visited s1 then Continue s1
            else
              let (html, s2) = fetch_page w u (mark_visited u s1) in
              (case handle_html w l u html s2 of
                 Inl (e, s3) \<Rightarrow> Abort e s3
               | Inr s3 \<Rightarrow> Continue (s3\<lparr>slept := slept s3 @ [delay s3]\<rparr>)))"

text \<open>
  The state after at most \<open>k\<close> passes of the loop (the state at the exception when a pass
  raises), and the loop itself.
\<close>

fun crawl_iter :: "world \<Rightarrow> lib \<Rightarrow> int option \<Rightarrow> nat \<Rightarrow> scraper \<Rightarrow> scraper" where
  "crawl_iter w l max_pages 0 s = s"
| "crawl_iter w l max_pages (Suc k) s =
     (case crawl_step w l max_pages s of
        Exit \<Rightarrow> s
      | Continue s' \<Rightarrow> crawl_iter w l max_pages k s'
      | Abort e s' \<Rightarrow> s')"

datatype run = Finished scraper | Failed py_error scraper

text \<open>The state in which a run ends, and the state a pass of the loop leaves.\<close>

fun final :: "run \<Rightarrow> scraper" where
  "final (Finished s) = s"
| "final (Failed e s) = s"

fun state_after :: "step \<Rightarrow> scraper option" where
  "state_after Exit = None"
| "state_after (Continue s) = Some s"
| "state_after (Abort e s) = Some s"

partial_function (option) crawl_loop :: "world \<Rightarrow> lib \<Rightarrow> int option \<Rightarrow> scraper \<Rightarrow> run option" where
  "crawl_loop w l max_pages s =
     (case crawl_step w l max_pages s of
        Exit \<Rightarrow> Some (Finished s)
      | Continue s' \<Rightarrow> crawl_loop w l max_pages s'
      | Abort e s' \<Rightarrow> Some (Failed e s'))"

text \<open>
  The first line of \<^verbatim>\<open>crawl\<close> and the initial queue; \<open>connector\<close> holds the proxy
  given to \<^verbatim>\<open>ProxyConnector.from_url\<close>, \<open>None\<close> for a direct connection.
\<close>

definition crawl_begin :: "scraper \<Rightarrow> scraper" where
  "crawl_begin s =
     (let (p, s1) = (if proxies s \<noteq> [] then rotate_proxy s else (None, s))
      in s1\<lparr>connector := p, queue := [base_url s1]\<rparr>)"

definition crawl :: "world \<Rightarrow> lib \<Rightarrow> int option \<Rightarrow> scraper \<Rightarrow> run option" where
  "crawl w l max_pages s = crawl_loop w l max_pages (crawl_begin s)"

section \<open>The exporter\<close>

record summary =
  pages_scraped :: nat
  total_links :: nat
  total_emails :: nat
  total_phones :: nat
  total_forms :: nat
  start_time :: string
  end_time :: string

datatype artifact =
    JsonDump "parsed_page list"
  | CsvTable "parsed_page list"
  | SummaryJson summary

text \<open>
  A generator \<^verbatim>\<open>d[key] for d in self.data\<close>, consumed to its end by \<^verbatim>\<open>sum\<close>, \<^verbatim>\<open>min\<close>
  or \<^verbatim>\<open>max\<close>: subscripting an element that is not a dict raises \<^verbatim>\<open>TypeError\<close>.
\<close>

fun fields :: "(page_data \<Rightarrow> 'a) \<Rightarrow> parsed_page list \<Rightarrow> py_error + 'a list" where
  "fields f [] = Inr []"
| "fields f (EmptyList # ds) = Inl TypeError"
| "fields f (PageData p # ds) =
     (case fields f ds of Inl e \<Rightarrow> Inl e | Inr xs \<Rightarrow> Inr (f p # xs))"

definition and_then :: "py_error + 'a \<Rightarrow> ('a \<Rightarrow> py_error + 'b) \<Rightarrow> py_error + 'b" where
  "and_then r f = (case r of Inl e \<Rightarrow> Inl e | Inr x \<Rightarrow> f x)"

definition sum_len :: "(page_data \<Rightarrow> 'a list) \<Rightarrow> parsed_page list \<Rightarrow> py_error + nat" where
  "sum_len f ds = and_then (fields f ds) (\<lambda>xs. Inr (sum_list (map length xs)))"

text \<open>\<^verbatim>\<open>min\<close> and \<^verbatim>\<open>max\<close> of an iterable: \<^verbatim>\<open>ValueError\<close> when it is empty.\<close>

definition py_min :: "string list \<Rightarrow> py_error + string" where
  "py_min xs = (case xs of [] \<Rightarrow> Inl ValueError | x # ys \<Rightarrow> Inr (fold min ys x))"

definition py_max :: "string list \<Rightarrow> py_error + string" where
  "py_max xs = (case xs of [] \<Rightarrow> Inl ValueError | x # ys \<Rightarrow> Inr (fold max ys x))"

text \<open>The dict display \<^verbatim>\<open>summary = {...}\<close>, its values evaluated in the order written.\<close>

definition build_summary :: "scraper \<Rightarrow> py_error + summary" where
  "build_summary s =
     and_then (sum_len links (data s)) (\<lambda>nl.
     and_then (sum_len emails (data s)) (\<lambda>ne.
     and_then (sum_len phones (data s)) (\<lambda>np.
     and_then (sum_len forms (data s)) (\<lambda>nf.
     and_then (and_then (fields timestamp (data s)) py_min) (\<lambda>t0.
     and_then (and_then (fields timestamp (data s)) py_max) (\<lambda>t1.
       Inr \<lparr>pages_scraped = fcard (visited s), total_links = nl, total_emails = ne,
            total_phones = np, total_forms = nf, start_time = t0, end_time = t1\<rparr>))))))"

text \<open>
  \<^verbatim>\<open>pd.json_normalize(self.data)\<close> returns a table for a list of dicts, the empty
  list included, and raises when an item is not a dict.
\<close>

fun is_dict :: "parsed_page \<Rightarrow> bool" where
  "is_dict EmptyList = False"
| "is_dict (PageData p) = True"

definition json_normalize :: "parsed_page list \<Rightarrow> py_error + parsed_page list" where
  "json_normalize ds = (if list_all is_dict ds then Inr ds else Inl NormalizeError)"

text \<open>
  \<open>export_data\<close> returns the files written, in order, with the exception raised if any.
  \<open>ts\<close> is \<^verbatim>\<open>datetime.now().strftime(...)\<close>. \<^verbatim>\<open>json.dump\<close> and \<^verbatim>\<open>to_csv\<close> are taken to
  succeed.
\<close>

definition export_data :: "string \<Rightarrow> scraper \<Rightarrow> (string \<times> artifact) list \<times> py_error option" where
  "export_data ts s =
     (let json = [(''scraping_results_'' @ ts @ ''.json'', JsonDump (data s))] in
      case json_normalize (data s) of
        Inl e \<Rightarrow> (json, Some e)
      | Inr df \<Rightarrow>
          let written = json @ [(''scraping_results_'' @ ts @ ''.csv'', CsvTable df)]
          in case build_summary s of
               Inl e \<Rightarrow> (written, Some e)
             | Inr sm \<Rightarrow>
                 (written @ [(''scraping_summary_'' @ ts @ ''.json'', SummaryJson sm)], None))"

section \<open>A model of \<^verbatim>\<open>urllib.parse.urlparse\<close> and an example site\<close>

text \<open>
  The theorems hold for every \<open>lib\<close> and every \<open>world\<close>. To evaluate the program on
  concrete URLs, \<open>py_urlparse\<close> follows \<^verbatim>\<open>urlsplit\<close> and \<^verbatim>\<open>urlparse\<close> of CPython on
  ASCII URLs without leading blanks, control characters or a host between brackets: the
  scheme up to the first \<^verbatim>\<open>:\<close> when it is well-formed, the network location after
  \<^verbatim>\<open>//\<close> up to the first of \<^verbatim>\<open>/?#\<close>, \<^verbatim>\<open>ValueError("Invalid IPv6 URL")\<close> when it holds
  one bracket without the other, then the fragment, the query and the parameters of the
  last path segment.
\<close>

definition isalpha :: "char \<Rightarrow> bool" where
  "isalpha c = ((CHR ''a'' \<le> c \<and> c \<le> CHR ''z'') \<or> (CHR ''A'' \<le> c \<and> c \<le> CHR ''Z''))"

definition scheme_char :: "char \<Rightarrow> bool" where
  "scheme_char c = (isalpha c \<or> (CHR ''0'' \<le> c \<and> c \<le> CHR ''9'') \<or> c \<in> set ''+-.'')"

definition lower :: "char \<Rightarrow> char" where
  "lower c = (if CHR ''A'' \<le> c \<and> c \<le> CHR ''Z'' then char_of (of_char c + (32::nat)) else c)"

definition partition_at :: "char \<Rightarrow> string \<Rightarrow> string \<times> string" where
  "partition_at c t = (takeWhile (\<lambda>x. x \<noteq> c) t, drop 1 (dropWhile (\<lambda>x. x \<noteq> c) t))"

definition split_scheme :: "string \<Rightarrow> string \<times> string" where
  "split_scheme t =
     (let pre = takeWhile (\<lambda>x. x \<noteq> CHR '':'') t in
      if pre \<noteq> [] \<and> length pre < length t \<and> isalpha (hd pre) \<and> list_all scheme_char pre
      then (map lower pre, drop (Suc (length pre)) t)
      else ([], t))"

definition split_netloc :: "string \<Rightarrow> string \<times> string" where
  "split_netloc t =
     (if take 2 t = ''//''
      then (takeWhile (\<lambda>x. x \<notin> set ''/?#'') (drop 2 t),
            dropWhile (\<lambda>x. x \<notin> set ''/?#'') (drop 2 t))
      else ([], t))"

definition uses_params :: "string list" where
  "uses_params = [[], ''ftp'', ''hdl'', ''prospero'', ''http'', ''imap'', ''https'', ''shttp'',
                  ''rtsp'', ''rtspu'', ''sip'', ''sips'', ''mms'', ''sftp'', ''tel'']"

definition split_params :: "string \<Rightarrow> string \<times> string" where
  "split_params t =
     (let seg = rev (takeWhile (\<lambda>x. x \<noteq> CHR ''/'') (rev t));
          dir = take (length t - length seg) t
      in if CHR '';'' \<in> set seg
         then (dir @ fst (partition_at CHR '';'' seg), snd (partition_at CHR '';'' seg))
         else (t, []))"

definition py_urlparse :: "string \<Rightarrow> parsed_url attempt" where
  "py_urlparse t =
     (let (sch, r1) = split_scheme t;
          (nl, r2) = split_netloc r1
      in if (CHR ''['' \<in> set nl \<and> CHR '']'' \<notin> set nl) \<or> (CHR '']'' \<in> set nl \<and> CHR ''['' \<notin> set nl)
         then Raises ''Invalid IPv6 URL''
         else
           let (r3, frag) = partition_at CHR ''#'' r2;
               (r4, qry) = partition_at CHR ''?'' r3;
               (pth, prm) = (if sch \<in> set uses_params \<and> CHR '';'' \<in> set r4
                             then split_params r4 else (r4, []))
           in Returns \<lparr>scheme = sch, netloc = nl, path = pth, params = prm, query = qry,
                       fragment = frag\<rparr>)"

text \<open>
  The example site: the seed page links to \<^verbatim>\<open>/a\<close> twice, to \<^verbatim>\<open>/b\<close>, to another host
  and to a PDF with a query; \<^verbatim>\<open>/a\<close> answers 404, \<^verbatim>\<open>/b\<close> times out; the page \<^verbatim>\<open>/e\<close>
  links to \<^verbatim>\<open>http://[\<close>. All the links are absolute: \<^verbatim>\<open>urljoin\<close> parses the link,
  which may raise, and returns the link itself.
\<close>

definition seed_html :: string where
  "seed_html =
     ''<title>Seed</title>'' @
     ''<a href=http://example.test/a>A</a><a href=http://example.test/a>A</a>'' @
     ''<a href=http://example.test/b>B</a><a href=http://other.test/c>C</a>'' @
     ''<a href=http://example.test/d.pdf?x=1>D</a>''"

definition seed_soup :: soup where
  "seed_soup =
     \<lparr>soup_title = Some (Some ''Seed''),
      soup_a = [\<lparr>tag_attrs = [(''href'', ''http://example.test/a'')], tag_text = ''A''\<rparr>,
                \<lparr>tag_attrs = [(''href'', ''http://example.test/a'')], tag_text = ''A''\<rparr>,
                \<lparr>tag_attrs = [(''href'', ''http://example.test/b'')], tag_text = ''B''\<rparr>,
                \<lparr>tag_attrs = [(''href'', ''http://other.test/c'')], tag_text = ''C''\<rparr>,
                \<lparr>tag_attrs = [(''href'', ''http://example.test/d.pdf?x=1'')], tag_text = ''D''\<rparr>],
      soup_form = [],
      soup_meta = []\<rparr>"

definition broken_html :: string where
  "broken_html = ''<a href=http://[>E</a>''"

definition broken_soup :: soup where
  "broken_soup =
     \<lparr>soup_title = None,
      soup_a = [\<lparr>tag_attrs = [(''href'', ''http://['')], tag_text = ''E''\<rparr>],
      soup_form = [],
      soup_meta = []\<rparr>"

definition example_lib :: lib where
  "example_lib =
     \<lparr>urlparse = py_urlparse,
      urljoin = (\<lambda>base href. case py_urlparse href of
                                Raises e \<Rightarrow> Raises e
                              | Returns p \<Rightarrow> Returns href),
      BeautifulSoup = (\<lambda>h. if h = seed_html then Returns seed_soup
                            else if h = broken_html then Returns broken_soup
                            else Returns \<lparr>soup_title = None, soup_a = [], soup_form = [],
                                          soup_meta = []\<rparr>),
      findall_email = (\<lambda>h. []),
      findall_phone = (\<lambda>h. [])\<rparr>"

definition example_world :: world where
  "example_world =
     \<lparr>session_get = (\<lambda>before u.
         if u = ''http://example.test/'' then Returns \<lparr>status = 200, body = Returns seed_html\<rparr>
         else if u = ''http://example.test/a'' then Returns \<lparr>status = 404, body = Returns ''gone''\<rparr>
         else if u = ''http://example.test/e'' then Returns \<lparr>status = 200, body = Returns broken_html\<rparr>
         else Raises ''timeout''),
      now = (\<lambda>n. ''2024-01-01T10:00:0'' @ [char_of (48 + n)]),
      proxies_txt = Some [''http://p1:8080'', '' '', ''http://p2:8080 '', ''http://p3:8080'']\<rparr>"

text \<open>A server that answers 200 to every request and drops the connection while the body is read.\<close>

definition dropping_world :: world where
  "dropping_world =
     \<lparr>session_get = (\<lambda>before u. Returns \<lparr>status = 200, body = Raises ''Response payload is not completed''\<rparr>),
      now = (\<lambda>n. ''2024-01-01T10:00:00''),
      proxies_txt = None\<rparr>"

text \<open>A scraper after a run that claimed three URLs and recorded two pages.\<close>

definition example_store :: scraper where
  "example_store =
     (init example_world ''http://example.test/'' 1)
       \<lparr>visited := {|''http://example.test/'', ''http://example.test/a'', ''http://example.test/b''|},
        data :=
          [PageData
             \<lparr>url = ''http://example.test/'', timestamp = ''2024-01-01T10:00:02'',
              title = Some ''Seed'',
              links = [\<lparr>link_text = ''A'', link_url = ''http://example.test/a''\<rparr>,
                       \<lparr>link_text = ''B'', link_url = ''http://example.test/b''\<rparr>],
              emails = [''a@b.com''], phones = [], forms = [], metadata = Map.empty\<rparr>,
           PageData
             \<lparr>url = ''http://example.test/b'', timestamp = ''2024-01-01T10:00:01.5'',
              title = None,
              links = [\<lparr>link_text = [], link_url = ''http://example.test/''\<rparr>],
              emails = [], phones = [''555-123-4567''],
              forms = [\<lparr>form_action = None, form_method = Some ''post'', inputs = []\<rparr>],
              metadata = Map.empty\<rparr>]\<rparr>"


section \<open>What one call and one pass of the loop do\<close>

lemma fetch_page_eq:
  "fetch_page w u s =
     (case session_get w (fetched s) u of
        Raises e \<Rightarrow> (None, s\<lparr>fetched := fetched s @ [u], logged := logged s @ [ErrorFetching u e]\<rparr>)
      | Returns r \<Rightarrow>
          if status r = 200 then
            (case body r of
               Raises e \<Rightarrow> (None, s\<lparr>fetched := fetched s @ [u], logged := logged s @ [ErrorFetching u e]\<rparr>)
             | Returns t \<Rightarrow> (Some t, s\<lparr>fetched := fetched s @ [u]\<rparr>))
          else (None, s\<lparr>fetched := fetched s @ [u], logged := logged s @ [FailedToFetch u (status r)]\<rparr>))"
  by (simp add: fetch_page_def fetch_page_try_def Let_def split: attempt.splits)

lemma fetch_page_frame:
  "\<exists>lg. snd (fetch_page w u s) = s\<lparr>fetched := fetched s @ [u], logged := logged s @ lg\<rparr>"
proof (cases "session_get w (fetched s) u")
  case (Raises e)
  then have "snd (fetch_page w u s) =
      s\<lparr>fetched := fetched s @ [u], logged := logged s @ [ErrorFetching u e]\<rparr>"
    by (simp add: fetch_page_eq)
  then show ?thesis by blast
next
  case (Returns r)
  show ?thesis
  proof (cases "status r = 200")
    case True
    show ?thesis
    proof (cases "body r")
      case (Raises e)
      then have "snd (fetch_page w u s) =
          s\<lparr>fetched := fetched s @ [u], logged := logged s @ [ErrorFetching u e]\<rparr>"
        using Returns True by (simp add: fetch_page_eq)
      then show ?thesis by blast
    next
      case (Returns t)
      then have "snd (fetch_page w u s) =
          s\<lparr>fetched := fetched s @ [u], logged := logged s @ []\<rparr>"
        using \<open>session_get w (fetched s) u = Returns r\<close> True by (simp add: fetch_page_eq)
      then show ?thesis by blast
    qed
  next
    case False
    then have "snd (fetch_page w u s) =
        s\<lparr>fetched := fetched s @ [u], logged := logged s @ [FailedToFetch u (status r)]\<rparr>"
      using Returns by (simp add: fetch_page_eq)
    then show ?thesis by blast
  qed
qed

lemma should_crawl_queue [simp]: "should_crawl l (s\<lparr>queue := q\<rparr>) v = should_crawl l s v"
  by (simp add: should_crawl_def split: attempt.splits)

lemma should_crawl_cong:
  "base_url s = base_url s' \<Longrightarrow> visited s = visited s' \<Longrightarrow> should_crawl l s = should_crawl l s'"
  by (rule ext) (simp add: should_crawl_def split: attempt.splits)

lemma should_crawl_True_iff:
  "should_crawl l s v = Returns True \<longleftrightarrow>
     (\<exists>p bp. urlparse l v = Returns p \<and> urlparse l (base_url s) = Returns bp \<and>
             netloc p = netloc bp \<and> v |\<notin>| visited s \<and>
             \<not> endswith_any v [''.pdf'', ''.jpg'', ''.png'', ''.gif''])"
  by (auto simp add: should_crawl_def split: attempt.splits)

lemma should_crawl_visited: "v |\<in>| visited s \<Longrightarrow> should_crawl l s v \<noteq> Returns True"
  by (simp add: should_crawl_True_iff)

text \<open>The loop over the links: when it ends, and where it stops when the filter raises.\<close>

lemma enqueue_links_returns:
  "(\<forall>k\<in>set ks. \<exists>ok. should_crawl l s (link_url k) = Returns ok) \<Longrightarrow>
   enqueue_links l ks s =
     Inr (s\<lparr>queue := queue s @ filter (\<lambda>v. should_crawl l s v = Returns True) (map link_url ks)\<rparr>)"
proof (induction ks arbitrary: s)
  case Nil
  show ?case by simp
next
  case (Cons k ks)
  from Cons.prems obtain ok where ok: "should_crawl l s (link_url k) = Returns ok" by auto
  let ?s = "if ok then s\<lparr>queue := queue s @ [link_url k]\<rparr> else s"
  have same: "should_crawl l ?s v = should_crawl l s v" for v by simp
  have "\<forall>k\<in>set ks. \<exists>ok. should_crawl l ?s (link_url k) = Returns ok"
    using Cons.prems by (simp add: same)
  from Cons.IH[OF this] show ?case
    using ok by (cases ok) (simp_all add: same)
qed

lemma enqueue_links_Inr:
  "enqueue_links l ks s = Inr s' \<Longrightarrow>
   (\<forall>k\<in>set ks. \<exists>ok. should_crawl l s (link_url k) = Returns ok) \<and>
   s' = s\<lparr>queue := queue s @ filter (\<lambda>v. should_crawl l s v = Returns True) (map link_url ks)\<rparr>"
proof (induction ks arbitrary: s)
  case Nil
  then show ?case by simp
next
  case (Cons k ks)
  show ?case
  proof (cases "should_crawl l s (link_url k)")
    case (Raises e)
    then show ?thesis using Cons.prems by simp
  next
    case (Returns ok)
    let ?s = "if ok then s\<lparr>queue := queue s @ [link_url k]\<rparr> else s"
    have same: "should_crawl l ?s v = should_crawl l s v" for v by simp
    have "enqueue_links l ks ?s = Inr s'" using Cons.prems Returns by simp
    from Cons.IH[OF this] show ?thesis
      using Returns by (cases ok) (auto simp add: same)
  qed
qed

lemma enqueue_links_Inl:
  "enqueue_links l ks s = Inl (e, s') \<Longrightarrow>
   \<exists>ks1 k ks2 msg. ks = ks1 @ k # ks2 \<and> should_crawl l s (link_url k) = Raises msg \<and>
     e = Raised msg \<and>
     s' = s\<lparr>queue := queue s @ filter (\<lambda>v. should_crawl l s v = Returns True) (map link_url ks1)\<rparr>"
proof (induction ks arbitrary: s)
  case Nil
  then show ?case by simp
next
  case (Cons k ks)
  show ?case
  proof (cases "should_crawl l s (link_url k)")
    case (Raises msg)
    then have "k # ks = [] @ k # ks \<and> should_crawl l s (link_url k) = Raises msg \<and>
        e = Raised msg \<and>
        s' = s\<lparr>queue := queue s @ filter (\<lambda>v. should_crawl l s v = Returns True) (map link_url [])\<rparr>"
      using Cons.prems by simp
    then show ?thesis by blast
  next
    case (Returns ok)
    let ?s = "if ok then s\<lparr>queue := queue s @ [link_url k]\<rparr> else s"
    have same: "should_crawl l ?s v = should_crawl l s v" for v by simp
    have "enqueue_links l ks ?s = Inl (e, s')" using Cons.prems Returns by simp
    from Cons.IH[OF this] obtain ks1 k' ks2 msg where
      a: "ks = ks1 @ k' # ks2" and b: "should_crawl l s (link_url k') = Raises msg"
      and c: "e = Raised msg"
      and d: "s' = ?s\<lparr>queue := queue ?s @
                filter (\<lambda>v. should_crawl l s v = Returns True) (map link_url ks1)\<rparr>"
      by (auto simp add: same)
    have "k # ks = (k # ks1) @ k' # ks2" using a by simp
    moreover have "s' = s\<lparr>queue := queue s @
        filter (\<lambda>v. should_crawl l s v = Returns True) (map link_url (k # ks1))\<rparr>"
      using d Returns by (cases ok) simp_all
    ultimately show ?thesis using b c by blast
  qed
qed

lemma enqueue_links_frame:
  assumes "enqueue_links l ks s = Inl (e, s') \<or> enqueue_links l ks s = Inr s'"
  shows "\<exists>new. s' = s\<lparr>queue := queue s @ new\<rparr> \<and>
               (\<forall>v\<in>set new. should_crawl l s v = Returns True)"
  using assms
proof
  assume "enqueue_links l ks s = Inl (e, s')"
  from enqueue_links_Inl[OF this] obtain ks1 k ks2 msg where
    "ks = ks1 @ k # ks2" and
    "s' = s\<lparr>queue := queue s @ filter (\<lambda>v. should_crawl l s v = Returns True) (map link_url ks1)\<rparr>"
    by blast
  moreover have "\<forall>v\<in>set (filter (\<lambda>v. should_crawl l s v = Returns True) (map link_url ks1)).
      should_crawl l s v = Returns True" by simp
  ultimately show ?thesis by blast
next
  assume "enqueue_links l ks s = Inr s'"
  from enqueue_links_Inr[OF this] have
    "s' = s\<lparr>queue := queue s @ filter (\<lambda>v. should_crawl l s v = Returns True) (map link_url ks)\<rparr>"
    by blast
  moreover have "\<forall>v\<in>set (filter (\<lambda>v. should_crawl l s v = Returns True) (map link_url ks)).
      should_crawl l s v = Returns True" by simp
  ultimately show ?thesis by blast
qed

lemma parse_page_falsy:
  "\<not> truthy html \<Longrightarrow> parse_page l t html u = Returns EmptyList"
  by (cases html) (simp_all add: truthy_def parse_page_def)

lemma parse_page_truthy:
  "truthy html \<Longrightarrow> parse_page l t html u \<noteq> Returns EmptyList"
  by (cases html) (simp_all add: truthy_def parse_page_def split: attempt.splits)

lemma parse_page_PageData_truthy:
  "parse_page l t html u = Returns (PageData p) \<Longrightarrow> truthy html"
  using parse_page_falsy[of html l t u] by auto

lemma handle_html_falsy: "\<not> truthy html \<Longrightarrow> handle_html w l u html s = Inr s"
  by (simp add: handle_html_def)

lemma handle_html_raises:
  "truthy html \<Longrightarrow> parse_page l (now w (length (fetched s))) html u = Raises e \<Longrightarrow>
   handle_html w l u html s = Inl (Raised e, s)"
  by (simp add: handle_html_def)

lemma handle_html_parsed:
  "parse_page l (now w (length (fetched s))) html u = Returns (PageData p) \<Longrightarrow>
   handle_html w l u html s = enqueue_links l (links p) (s\<lparr>data := data s @ [PageData p]\<rparr>)"
  using parse_page_PageData_truthy[of l "now w (length (fetched s))" html u p]
  by (simp add: handle_html_def Let_def)

lemma crawl_step_exit: "\<not> loop_cond mp s \<Longrightarrow> crawl_step w l mp s = Exit"
  by (simp add: crawl_step_def)

lemma crawl_step_skip:
  "loop_cond mp s \<Longrightarrow> queue s = u # rest \<Longrightarrow> u |\<in>| visited s \<Longrightarrow>
   crawl_step w l mp s = Continue (s\<lparr>queue := rest\<rparr>)"
  by (simp add: crawl_step_def Let_def)

lemma crawl_step_visit_unfold:
  assumes "loop_cond mp s" and "queue s = u # rest" and "u |\<notin>| visited s"
  shows "crawl_step w l mp s =
           (case handle_html w l u
                   (fst (fetch_page w u (mark_visited u (s\<lparr>queue := rest\<rparr>))))
                   (snd (fetch_page w u (mark_visited u (s\<lparr>queue := rest\<rparr>)))) of
              Inl (e, s3) \<Rightarrow> Abort e s3
            | Inr s3 \<Rightarrow> Continue (s3\<lparr>slept := slept s3 @ [delay s3]\<rparr>))"
  using assms by (simp add: crawl_step_def Let_def split_def)

text \<open>The state in which the fetch of a dequeued, unvisited URL leaves the scraper.\<close>

lemma fetched_state:
  "\<exists>lg. snd (fetch_page w u (mark_visited u (s\<lparr>queue := rest\<rparr>))) =
          s\<lparr>queue := rest, visited := finsert u (visited s),
            logged := logged s @ Crawling u # lg, fetched := fetched s @ [u]\<rparr>"
proof -
  let ?s1 = "mark_visited u (s\<lparr>queue := rest\<rparr>)"
  obtain lg where "snd (fetch_page w u ?s1) =
      ?s1\<lparr>fetched := fetched ?s1 @ [u], logged := logged ?s1 @ lg\<rparr>"
    using fetch_page_frame by blast
  then have "snd (fetch_page w u ?s1) =
          s\<lparr>queue := rest, visited := finsert u (visited s),
            logged := logged s @ Crawling u # lg, fetched := fetched s @ [u]\<rparr>"
    by (simp add: mark_visited_def)
  then show ?thesis by blast
qed

lemma crawl_step_failed:
  assumes "loop_cond mp s" and "queue s = u # rest" and "u |\<notin>| visited s"
    and "\<not> truthy (fst (fetch_page w u (mark_visited u (s\<lparr>queue := rest\<rparr>))))"
  shows "\<exists>lg. crawl_step w l mp s =
           Continue (s\<lparr>queue := rest, visited := finsert u (visited s),
                       logged := logged s @ Crawling u # lg,
                       fetched := fetched s @ [u], slept := slept s @ [delay s]\<rparr>)"
proof -
  obtain lg where lg: "snd (fetch_page w u (mark_visited u (s\<lparr>queue := rest\<rparr>))) =
          s\<lparr>queue := rest, visited := finsert u (visited s),
            logged := logged s @ Crawling u # lg, fetched := fetched s @ [u]\<rparr>"
    using fetched_state by blast
  have "crawl_step w l mp s =
           Continue (s\<lparr>queue := rest, visited := finsert u (visited s),
                       logged := logged s @ Crawling u # lg,
                       fetched := fetched s @ [u], slept := slept s @ [delay s]\<rparr>)"
    by (simp add: crawl_step_visit_unfold[OF assms(1-3)] handle_html_falsy[OF assms(4)] lg)
  then show ?thesis by blast
qed

lemma crawl_step_parse_raises:
  assumes "loop_cond mp s" and "queue s = u # rest" and "u |\<notin>| visited s"
    and "truthy (fst (fetch_page w u (mark_visited u (s\<lparr>queue := rest\<rparr>))))"
    and "parse_page l (now w (Suc (length (fetched s))))
           (fst (fetch_page w u (mark_visited u (s\<lparr>queue := rest\<rparr>)))) u = Raises e"
  shows "\<exists>lg. crawl_step w l mp s =
           Abort (Raised e) (s\<lparr>queue := rest, visited := finsert u (visited s),
                       logged := logged s @ Crawling u # lg,
                       fetched := fetched s @ [u]\<rparr>)"
proof -
  let ?f = "fetch_page w u (mark_visited u (s\<lparr>queue := rest\<rparr>))"
  obtain lg where lg: "snd ?f =
          s\<lparr>queue := rest, visited := finsert u (visited s),
            logged := logged s @ Crawling u # lg, fetched := fetched s @ [u]\<rparr>"
    using fetched_state by blast
  have "parse_page l (now w (length (fetched (snd ?f)))) (fst ?f) u = Raises e"
    using assms(5) by (simp add: lg)
  from handle_html_raises[OF assms(4) this]
  have "crawl_step w l mp s = Abort (Raised e) (snd ?f)"
    by (simp add: crawl_step_visit_unfold[OF assms(1-3)])
  then show ?thesis using lg by auto
qed

lemma crawl_step_parsed:
  assumes "loop_cond mp s" and "queue s = u # rest" and "u |\<notin>| visited s"
    and "parse_page l (now w (Suc (length (fetched s))))
           (fst (fetch_page w u (mark_visited u (s\<lparr>queue := rest\<rparr>)))) u = Returns (PageData p)"
  shows "\<exists>lg. crawl_step w l mp s =
           (case enqueue_links l (links p)
                   (s\<lparr>queue := rest, visited := finsert u (visited s),
                      data := data s @ [PageData p],
                      logged := logged s @ Crawling u # lg,
                      fetched := fetched s @ [u]\<rparr>) of
              Inl (e, s3) \<Rightarrow> Abort e s3
            | Inr s3 \<Rightarrow> Continue (s3\<lparr>slept := slept s3 @ [delay s3]\<rparr>))"
proof -
  let ?f = "fetch_page w u (mark_visited u (s\<lparr>queue := rest\<rparr>))"
  obtain lg where lg: "snd ?f =
          s\<lparr>queue := rest, visited := finsert u (visited s),
            logged := logged s @ Crawling u # lg, fetched := fetched s @ [u]\<rparr>"
    using fetched_state by blast
  have "parse_page l (now w (length (fetched (snd ?f)))) (fst ?f) u = Returns (PageData p)"
    using assms(4) by (simp add: lg)
  from handle_html_parsed[OF this]
  have "crawl_step w l mp s =
           (case enqueue_links l (links p) ((snd ?f)\<lparr>data := data (snd ?f) @ [PageData p]\<rparr>) of
              Inl (e, s3) \<Rightarrow> Abort e s3
            | Inr s3 \<Rightarrow> Continue (s3\<lparr>slept := slept s3 @ [delay s3]\<rparr>))"
    by (simp add: crawl_step_visit_unfold[OF assms(1-3)])
  moreover have "(snd ?f)\<lparr>data := data (snd ?f) @ [PageData p]\<rparr> =
      s\<lparr>queue := rest, visited := finsert u (visited s),
        data := data s @ [PageData p],
        logged := logged s @ Crawling u # lg,
        fetched := fetched s @ [u]\<rparr>"
    by (simp add: lg)
  ultimately have "crawl_step w l mp s =
           (case enqueue_links l (links p)
                   (s\<lparr>queue := rest, visited := finsert u (visited s),
                      data := data s @ [PageData p],
                      logged := logged s @ Crawling u # lg,
                      fetched := fetched s @ [u]\<rparr>) of
              Inl (e, s3) \<Rightarrow> Abort e s3
            | Inr s3 \<Rightarrow> Continue (s3\<lparr>slept := slept s3 @ [delay s3]\<rparr>))"
    by (simp only:)
  then show ?thesis by blast
qed

subsection \<open>The proxy rotator\<close>

lemma rotate_proxy_nonempty:
  "proxies s \<noteq> [] \<Longrightarrow>
   rotate_proxy s =
     (Some (proxies s ! nat ((current_proxy s + 1) mod int (length (proxies s)))),
      s\<lparr>current_proxy := (current_proxy s + 1) mod int (length (proxies s))\<rparr>)"
  by (simp add: rotate_proxy_def Let_def)

lemma rotate_proxy_empty: "proxies s = [] \<Longrightarrow> rotate_proxy s = (None, s)"
  by (simp add: rotate_proxy_def)

lemma rotations_Suc:
  "proxies s \<noteq> [] \<Longrightarrow>
   rotations (Suc k) s =
     (Some (proxies s ! nat ((current_proxy s + 1) mod int (length (proxies s)))) #
        fst (rotations k (s\<lparr>current_proxy := (current_proxy s + 1) mod int (length (proxies s))\<rparr>)),
      snd (rotations k (s\<lparr>current_proxy := (current_proxy s + 1) mod int (length (proxies s))\<rparr>)))"
  by (simp add: rotate_proxy_nonempty split_def Let_def)

lemma rotations_length: "length (fst (rotations k s)) = k"
  by (induction k arbitrary: s) (simp_all add: split_def Let_def)

lemma rotations_state:
  "proxies s \<noteq> [] \<Longrightarrow> 0 < k \<Longrightarrow>
   snd (rotations k s) =
     s\<lparr>current_proxy := (current_proxy s + int k) mod int (length (proxies s))\<rparr>"
proof (induction k arbitrary: s)
  case 0
  then show ?case by simp
next
  case (Suc k)
  let ?n = "int (length (proxies s))"
  let ?s1 = "s\<lparr>current_proxy := (current_proxy s + 1) mod ?n\<rparr>"
  show ?case
  proof (cases "k = 0")
    case True
    then show ?thesis using Suc.prems by (simp add: rotations_Suc del: rotations.simps(2))
  next
    case False
    have "snd (rotations k ?s1) = ?s1\<lparr>current_proxy := (current_proxy ?s1 + int k) mod int (length (proxies ?s1))\<rparr>"
      using Suc.IH[of ?s1] Suc.prems False by simp
    moreover have "((current_proxy s + 1) mod ?n + int k) mod ?n = (current_proxy s + int (Suc k)) mod ?n"
    proof -
      have "((current_proxy s + 1) mod ?n + int k) mod ?n = ((current_proxy s + 1) + int k) mod ?n"
        by (rule mod_add_left_eq)
      also have "\<dots> = (current_proxy s + int (Suc k)) mod ?n"
        by (simp add: algebra_simps)
      finally show ?thesis .
    qed
    ultimately show ?thesis using Suc.prems by (simp add: rotations_Suc del: rotations.simps(2))
  qed
qed

lemma rotations_nth:
  "proxies s \<noteq> [] \<Longrightarrow> i < k \<Longrightarrow>
   fst (rotations k s) ! i =
     Some (proxies s ! nat ((current_proxy s + int i + 1) mod int (length (proxies s))))"
proof (induction k arbitrary: s i)
  case 0
  then show ?case by simp
next
  case (Suc k)
  let ?n = "int (length (proxies s))"
  let ?s1 = "s\<lparr>current_proxy := (current_proxy s + 1) mod ?n\<rparr>"
  show ?case
  proof (cases i)
    case 0
    then show ?thesis using Suc.prems by (simp add: rotations_Suc del: rotations.simps(2))
  next
    case (Suc j)
    have "fst (rotations k ?s1) ! j =
        Some (proxies ?s1 ! nat ((current_proxy ?s1 + int j + 1) mod int (length (proxies ?s1))))"
      using Suc.IH[of ?s1 j] Suc.prems Suc by simp
    moreover have "((current_proxy s + 1) mod ?n + int j + 1) mod ?n = (current_proxy s + int (Suc j) + 1) mod ?n"
    proof -
      have "((current_proxy s + 1) mod ?n + int j + 1) mod ?n =
            ((current_proxy s + 1) mod ?n + (int j + 1)) mod ?n"
        by (simp add: add.assoc)
      also have "\<dots> = ((current_proxy s + 1) + (int j + 1)) mod ?n"
        by (rule mod_add_left_eq)
      also have "\<dots> = (current_proxy s + int (Suc j) + 1) mod ?n"
        by (simp add: algebra_simps)
      finally show ?thesis .
    qed
    ultimately show ?thesis using Suc.prems Suc by (simp add: rotations_Suc del: rotations.simps(2))
  qed
qed

lemma rotations_empty: "proxies s = [] \<Longrightarrow> rotations k s = (replicate k None, s)"
  by (induction k) (simp_all add: rotate_proxy_empty)

lemma load_proxies_absent: "proxies_txt w = None \<Longrightarrow> load_proxies w = []"
  by (simp add: load_proxies_def)

lemma crawl_begin_empty:
  "proxies s = [] \<Longrightarrow> crawl_begin s = s\<lparr>connector := None, queue := [base_url s]\<rparr>"
  by (simp add: crawl_begin_def)

lemma crawl_begin_nonempty:
  "proxies s \<noteq> [] \<Longrightarrow>
   crawl_begin s =
     s\<lparr>current_proxy := (current_proxy s + 1) mod int (length (proxies s)),
       connector := Some (proxies s ! nat ((current_proxy s + 1) mod int (length (proxies s)))),
       queue := [base_url s]\<rparr>"
  by (simp add: crawl_begin_def rotate_proxy_nonempty)

lemma example_proxies:
  "load_proxies example_world = [''http://p1:8080'', ''http://p2:8080'', ''http://p3:8080'']"
  by (simp add: load_proxies_def example_world_def strip_def isspace_def)

subsection \<open>The exporter\<close>

lemma fields_pages: "fields f (map PageData ps) = Inr (map f ps)"
  by (induction ps) simp_all

lemma sum_len_pages: "sum_len f (map PageData ps) = Inr (sum_list (map (\<lambda>p. length (f p)) ps))"
  by (simp add: sum_len_def and_then_def fields_pages comp_def)

lemma py_min_Min: "xs \<noteq> [] \<Longrightarrow> py_min xs = Inr (Min (set xs))"
proof (cases xs)
  case Nil
  assume "xs \<noteq> []"
  with Nil show ?thesis by simp
next
  case (Cons x ys)
  have "Min (set (x # ys)) = fold min ys x" by (rule Min.set_eq_fold)
  then show ?thesis using Cons by (simp add: py_min_def)
qed

lemma py_max_Max: "xs \<noteq> [] \<Longrightarrow> py_max xs = Inr (Max (set xs))"
proof (cases xs)
  case Nil
  assume "xs \<noteq> []"
  with Nil show ?thesis by simp
next
  case (Cons x ys)
  have "Max (set (x # ys)) = fold max ys x" by (rule Max.set_eq_fold)
  then show ?thesis using Cons by (simp add: py_max_def)
qed

lemma build_summary_empty: "data s = [] \<Longrightarrow> build_summary s = Inl ValueError"
  by (simp add: build_summary_def sum_len_def and_then_def py_min_def)

lemma build_summary_pages:
  assumes "data s = map PageData ps" and "ps \<noteq> []"
  shows "build_summary s =
    Inr \<lparr>pages_scraped = fcard (visited s),
         total_links = sum_list (map (\<lambda>p. length (links p)) ps),
         total_emails = sum_list (map (\<lambda>p. length (emails p)) ps),
         total_phones = sum_list (map (\<lambda>p. length (phones p)) ps),
         total_forms = sum_list (map (\<lambda>p. length (forms p)) ps),
         start_time = Min (set (map timestamp ps)),
         end_time = Max (set (map timestamp ps))\<rparr>"
proof -
  have ne: "map timestamp ps \<noteq> []" using assms(2) by simp
  show ?thesis
    unfolding build_summary_def assms(1) sum_len_pages fields_pages
    by (simp add: and_then_def py_min_Min[OF ne] py_max_Max[OF ne])
qed

lemma json_normalize_pages: "json_normalize (map PageData ps) = Inr (map PageData ps)"
  by (simp add: json_normalize_def list_all_iff)

subsection \<open>The fetcher and a failed fetch\<close>

lemma fetch_page_None_falsy: "fst (fetch_page w u s) = None \<Longrightarrow> \<not> truthy (fst (fetch_page w u s))"
  by (simp add: truthy_def)

lemma fetch_page_try_eq:
  "fetch_page_try w u s =
     (case session_get w (fetched s) u of
        Raises e \<Rightarrow> (Raises e, s\<lparr>fetched := fetched s @ [u]\<rparr>)
      | Returns r \<Rightarrow>
          if status r = 200 then
            (case body r of
               Raises e \<Rightarrow> (Raises e, s\<lparr>fetched := fetched s @ [u]\<rparr>)
             | Returns t \<Rightarrow> (Returns (Some t), s\<lparr>fetched := fetched s @ [u]\<rparr>))
          else (Returns None,
                s\<lparr>fetched := fetched s @ [u], logged := logged s @ [FailedToFetch u (status r)]\<rparr>))"
  by (simp add: fetch_page_try_def Let_def split: attempt.splits)

lemma fetch_page_fetched: "fetched (snd (fetch_page w u s)) = fetched s @ [u]"
  using fetch_page_frame[of w u s] by auto

lemma fetch_page_Some_iff:
  "fst (fetch_page w u s) = Some t \<longleftrightarrow>
     (\<exists>r. session_get w (fetched s) u = Returns r \<and> status r = 200 \<and> body r = Returns t)"
  by (auto simp add: fetch_page_eq split: attempt.splits if_splits)

lemma fetch_page_bad_status:
  "session_get w (fetched s) u = Returns r \<Longrightarrow> status r \<noteq> 200 \<Longrightarrow>
   fetch_page w u s =
     (None, s\<lparr>fetched := fetched s @ [u], logged := logged s @ [FailedToFetch u (status r)]\<rparr>)"
  by (simp add: fetch_page_eq)

lemma fetch_page_raised:
  "fst (fetch_page_try w u s) = Raises e \<Longrightarrow>
   fetch_page w u s =
     (None, s\<lparr>fetched := fetched s @ [u], logged := logged s @ [ErrorFetching u e]\<rparr>)"
  by (auto simp add: fetch_page_eq fetch_page_try_eq split: attempt.splits if_splits)

lemma fetch_page_try_raises_iff:
  "fst (fetch_page_try w u s) = Raises e \<longleftrightarrow>
     (session_get w (fetched s) u = Raises e \<or>
      (\<exists>r. session_get w (fetched s) u = Returns r \<and> status r = 200 \<and> body r = Raises e))"
  by (auto simp add: fetch_page_try_eq split: attempt.splits if_splits)

lemma crawl_step_fetch_None:
  assumes "loop_cond mp s" and "queue s = u # rest" and "u |\<notin>| visited s"
    and "fst (fetch_page w u (mark_visited u (s\<lparr>queue := rest\<rparr>))) = None"
  shows "\<exists>s'. crawl_step w l mp s = Continue s' \<and> data s' = data s \<and> queue s' = rest \<and>
              visited s' = finsert u (visited s) \<and> fetched s' = fetched s @ [u] \<and>
              slept s' = slept s @ [delay s]"
proof -
  have "\<not> truthy (fst (fetch_page w u (mark_visited u (s\<lparr>queue := rest\<rparr>))))"
    using assms(4) by (simp add: truthy_def)
  from crawl_step_failed[OF assms(1-3) this, of l] obtain lg where
    "crawl_step w l mp s =
           Continue (s\<lparr>queue := rest, visited := finsert u (visited s),
                       logged := logged s @ Crawling u # lg,
                       fetched := fetched s @ [u], slept := slept s @ [delay s]\<rparr>)"
    by blast
  then show ?thesis by simp
qed

lemma example_get_seed:
  "session_get example_world [] ''http://example.test/'' =
     Returns \<lparr>status = 200, body = Returns seed_html\<rparr>"
  by (simp add: example_world_def)

lemma example_get_a:
  "session_get example_world [] ''http://example.test/a'' =
     Returns \<lparr>status = 404, body = Returns ''gone''\<rparr>"
  by (simp add: example_world_def)

lemma example_get_b:
  "session_get example_world [] ''http://example.test/b'' = Raises ''timeout''"
  by (simp add: example_world_def)

lemma init_fields:
  "fetched (init w b d) = []" "logged (init w b d) = []" "visited (init w b d) = {||}"
  "data (init w b d) = []" "queue (init w b d) = []"
  by (simp_all add: init_def)

subsection \<open>Invariants of the loop\<close>

text \<open>
  What a pass of the loop leaves, whether it reaches the next test of the condition or
  raises on the way.
\<close>

lemma crawl_step_effect:
  assumes "state_after (crawl_step w l mp s) = Some s'"
  shows "loop_cond mp s \<and>
         (\<exists>u rest. queue s = u # rest \<and>
            ((u |\<in>| visited s \<and> s' = s\<lparr>queue := rest\<rparr> \<and> crawl_step w l mp s = Continue s') \<or>
             (u |\<notin>| visited s \<and>
              (\<exists>new ps lg sl.
                 s' = s\<lparr>queue := rest @ new, visited := finsert u (visited s),
                        data := data s @ map PageData ps,
                        logged := logged s @ Crawling u # lg,
                        fetched := fetched s @ [u], slept := slept s @ sl\<rparr> \<and>
                 (\<forall>v\<in>set new. should_crawl l (s\<lparr>visited := finsert u (visited s)\<rparr>) v = Returns True) \<and>
                 ((crawl_step w l mp s = Continue s' \<and> sl = [delay s]) \<or>
                  ((\<exists>e. crawl_step w l mp s = Abort e s') \<and> sl = []))))))"
proof -
  have lc: "loop_cond mp s"
    using assms by (cases "loop_cond mp s") (simp_all add: crawl_step_exit)
  then obtain u rest where q: "queue s = u # rest"
    by (cases "queue s") (simp_all add: loop_cond_def)
  let ?v = "s\<lparr>visited := finsert u (visited s)\<rparr>"
  show ?thesis
  proof (cases "u |\<in>| visited s")
    case True
    have st: "crawl_step w l mp s = Continue (s\<lparr>queue := rest\<rparr>)"
      by (rule crawl_step_skip[OF lc q True])
    have "s' = s\<lparr>queue := rest\<rparr>" using assms by (simp add: st)
    then have "u |\<in>| visited s \<and> s' = s\<lparr>queue := rest\<rparr> \<and> crawl_step w l mp s = Continue s'"
      using True st by simp
    then show ?thesis using lc q by blast
  next
    case False
    let ?h = "fst (fetch_page w u (mark_visited u (s\<lparr>queue := rest\<rparr>)))"
    have goal: "\<exists>new ps lg sl.
                 s' = s\<lparr>queue := rest @ new, visited := finsert u (visited s),
                        data := data s @ map PageData ps,
                        logged := logged s @ Crawling u # lg,
                        fetched := fetched s @ [u], slept := slept s @ sl\<rparr> \<and>
                 (\<forall>v\<in>set new. should_crawl l ?v v = Returns True) \<and>
                 ((crawl_step w l mp s = Continue s' \<and> sl = [delay s]) \<or>
                  ((\<exists>e. crawl_step w l mp s = Abort e s') \<and> sl = []))"
    proof (cases "truthy ?h")
      case f: False
      from crawl_step_failed[OF lc q False f, of l] obtain lg where
        st: "crawl_step w l mp s =
           Continue (s\<lparr>queue := rest, visited := finsert u (visited s),
                       logged := logged s @ Crawling u # lg,
                       fetched := fetched s @ [u], slept := slept s @ [delay s]\<rparr>)"
        by blast
      have e1: "s' = s\<lparr>queue := rest, visited := finsert u (visited s),
                       logged := logged s @ Crawling u # lg,
                       fetched := fetched s @ [u], slept := slept s @ [delay s]\<rparr>"
        using assms by (simp add: st)
      have e2: "s\<lparr>queue := rest, visited := finsert u (visited s),
                       logged := logged s @ Crawling u # lg,
                       fetched := fetched s @ [u], slept := slept s @ [delay s]\<rparr> =
                s\<lparr>queue := rest @ [], visited := finsert u (visited s),
                       data := data s @ map PageData [],
                       logged := logged s @ Crawling u # lg,
                       fetched := fetched s @ [u], slept := slept s @ [delay s]\<rparr>"
        by simp
      have a: "s' = s\<lparr>queue := rest @ [], visited := finsert u (visited s),
                       data := data s @ map PageData [],
                       logged := logged s @ Crawling u # lg,
                       fetched := fetched s @ [u], slept := slept s @ [delay s]\<rparr>"
        using e1 e2 by (rule trans)
      have b: "\<forall>v\<in>set ([] :: string list). should_crawl l ?v v = Returns True"
        by simp
      have c: "crawl_step w l mp s = Continue s'" by (simp only: st e1)
      from a b c show ?thesis by blast
    next
      case True
      show ?thesis
      proof (cases "parse_page l (now w (Suc (length (fetched s)))) ?h u")
        case (Raises e)
        from crawl_step_parse_raises[OF lc q False True Raises] obtain lg where
          st: "crawl_step w l mp s =
           Abort (Raised e) (s\<lparr>queue := rest, visited := finsert u (visited s),
                       logged := logged s @ Crawling u # lg,
                       fetched := fetched s @ [u]\<rparr>)"
          by blast
        have e1: "s' = s\<lparr>queue := rest, visited := finsert u (visited s),
                       logged := logged s @ Crawling u # lg,
                       fetched := fetched s @ [u]\<rparr>"
          using assms by (simp add: st)
        have e2: "s\<lparr>queue := rest, visited := finsert u (visited s),
                       logged := logged s @ Crawling u # lg,
                       fetched := fetched s @ [u]\<rparr> =
                  s\<lparr>queue := rest @ [], visited := finsert u (visited s),
                       data := data s @ map PageData [],
                       logged := logged s @ Crawling u # lg,
                       fetched := fetched s @ [u], slept := slept s @ []\<rparr>"
          by simp
        have a: "s' = s\<lparr>queue := rest @ [], visited := finsert u (visited s),
                       data := data s @ map PageData [],
                       logged := logged s @ Crawling u # lg,
                       fetched := fetched s @ [u], slept := slept s @ []\<rparr>"
          using e1 e2 by (rule trans)
        have b: "\<forall>v\<in>set ([] :: string list). should_crawl l ?v v = Returns True"
          by simp
        have "crawl_step w l mp s = Abort (Raised e) s'" by (simp only: st e1)
        then have c: "\<exists>e. crawl_step w l mp s = Abort e s'" by blast
        from a b c show ?thesis by blast
      next
        case (Returns page)
        then obtain p where p: "page = PageData p"
          using parse_page_truthy[OF True, of l "now w (Suc (length (fetched s)))" u]
          by (cases page) simp_all
        from crawl_step_parsed[OF lc q False Returns[unfolded p]] obtain lg where
          st: "crawl_step w l mp s =
           (case enqueue_links l (links p)
                   (s\<lparr>queue := rest, visited := finsert u (visited s),
                      data := data s @ [PageData p],
                      logged := logged s @ Crawling u # lg,
                      fetched := fetched s @ [u]\<rparr>) of
              Inl (e, s3) \<Rightarrow> Abort e s3
            | Inr s3 \<Rightarrow> Continue (s3\<lparr>slept := slept s3 @ [delay s3]\<rparr>))"
          by blast
        define S where "S = s\<lparr>queue := rest, visited := finsert u (visited s),
                      data := data s @ [PageData p],
                      logged := logged s @ Crawling u # lg,
                      fetched := fetched s @ [u]\<rparr>"
        have st': "crawl_step w l mp s =
           (case enqueue_links l (links p) S of
              Inl (e, s3) \<Rightarrow> Abort e s3
            | Inr s3 \<Rightarrow> Continue (s3\<lparr>slept := slept s3 @ [delay s3]\<rparr>))"
          using st by (simp only: S_def)
        have sc: "should_crawl l S = should_crawl l ?v"
          by (rule should_crawl_cong) (simp_all add: S_def)
        show ?thesis
        proof (cases "enqueue_links l (links p) S")
          case (Inl es)
          obtain e s3 where es: "es = (e, s3)" by (cases es)
          have ab: "crawl_step w l mp s = Abort e s3" by (simp add: st' Inl es)
          have s3: "s' = s3" using assms by (simp add: ab)
          have "enqueue_links l (links p) S = Inl (e, s3) \<or> enqueue_links l (links p) S = Inr s3"
            using Inl es by simp
          from enqueue_links_frame[OF this] obtain new where
            n1: "s3 = S\<lparr>queue := queue S @ new\<rparr>"
            and n2: "\<forall>v\<in>set new. should_crawl l S v = Returns True"
            by blast
          have a: "s' = s\<lparr>queue := rest @ new, visited := finsert u (visited s),
                       data := data s @ map PageData [p],
                       logged := logged s @ Crawling u # lg,
                       fetched := fetched s @ [u], slept := slept s @ []\<rparr>"
            unfolding s3 n1 by (simp add: S_def)
          have b: "\<forall>v\<in>set new. should_crawl l ?v v = Returns True"
            using n2 by (simp only: sc)
          have c: "\<exists>e. crawl_step w l mp s = Abort e s'" using ab s3 by blast
          from a b c show ?thesis by blast
        next
          case (Inr s3)
          have co: "crawl_step w l mp s = Continue (s3\<lparr>slept := slept s3 @ [delay s3]\<rparr>)"
            by (simp add: st' Inr)
          have s3: "s' = s3\<lparr>slept := slept s3 @ [delay s3]\<rparr>" using assms by (simp add: co)
          have "enqueue_links l (links p) S = Inl (undefined, s3) \<or>
                enqueue_links l (links p) S = Inr s3"
            using Inr by simp
          from enqueue_links_frame[OF this] obtain new where
            n1: "s3 = S\<lparr>queue := queue S @ new\<rparr>"
            and n2: "\<forall>v\<in>set new. should_crawl l S v = Returns True"
            by blast
          have a: "s' = s\<lparr>queue := rest @ new, visited := finsert u (visited s),
                       data := data s @ map PageData [p],
                       logged := logged s @ Crawling u # lg,
                       fetched := fetched s @ [u], slept := slept s @ [delay s]\<rparr>"
            unfolding s3 n1 by (simp add: S_def)
          have b: "\<forall>v\<in>set new. should_crawl l ?v v = Returns True"
            using n2 by (simp only: sc)
          have c: "crawl_step w l mp s = Continue s'" using co s3 by simp
          from a b c show ?thesis by blast
        qed
      qed
    qed
    have "u |\<notin>| visited s \<and> (\<exists>new ps lg sl.
                 s' = s\<lparr>queue := rest @ new, visited := finsert u (visited s),
                        data := data s @ map PageData ps,
                        logged := logged s @ Crawling u # lg,
                        fetched := fetched s @ [u], slept := slept s @ sl\<rparr> \<and>
                 (\<forall>v\<in>set new. should_crawl l ?v v = Returns True) \<and>
                 ((crawl_step w l mp s = Continue s' \<and> sl = [delay s]) \<or>
                  ((\<exists>e. crawl_step w l mp s = Abort e s') \<and> sl = [])))"
      using False goal by (rule conjI)
    then show ?thesis using lc q by blast
  qed
qed

lemma crawl_iter_invariant:
  assumes "P s" and "\<And>a b. P a \<Longrightarrow> state_after (crawl_step w l mp a) = Some b \<Longrightarrow> P b"
  shows "P (crawl_iter w l mp k s)"
  using assms(1)
proof (induction k arbitrary: s)
  case 0
  then show ?case by simp
next
  case (Suc k)
  show ?case
  proof (cases "crawl_step w l mp s")
    case Exit
    then show ?thesis using Suc.prems by simp
  next
    case (Continue s')
    then have "P s'" using Suc.prems assms(2)[of s s'] by simp
    then show ?thesis using Continue Suc.IH by simp
  next
    case (Abort e s')
    then have "P s'" using Suc.prems assms(2)[of s s'] by simp
    then show ?thesis using Abort by simp
  qed
qed

lemma step_visited_cases:
  assumes "state_after (crawl_step w l mp s) = Some s'"
  shows "loop_cond mp s \<and>
         (\<exists>u rest. queue s = u # rest \<and>
            ((u |\<in>| visited s \<and> visited s' = visited s \<and> queue s' = rest \<and>
              fetched s' = fetched s \<and> data s' = data s \<and> slept s' = slept s) \<or>
             (u |\<notin>| visited s \<and> visited s' = finsert u (visited s) \<and>
              fetched s' = fetched s @ [u] \<and> (\<exists>ps. data s' = data s @ map PageData ps))))"
proof -
  from crawl_step_effect[OF assms] have lc: "loop_cond mp s" by blast
  from crawl_step_effect[OF assms] obtain u rest where q: "queue s = u # rest"
    and c: "(u |\<in>| visited s \<and> s' = s\<lparr>queue := rest\<rparr> \<and> crawl_step w l mp s = Continue s') \<or>
             (u |\<notin>| visited s \<and>
              (\<exists>new ps lg sl.
                 s' = s\<lparr>queue := rest @ new, visited := finsert u (visited s),
                        data := data s @ map PageData ps,
                        logged := logged s @ Crawling u # lg,
                        fetched := fetched s @ [u], slept := slept s @ sl\<rparr> \<and>
                 (\<forall>v\<in>set new. should_crawl l (s\<lparr>visited := finsert u (visited s)\<rparr>) v = Returns True) \<and>
                 ((crawl_step w l mp s = Continue s' \<and> sl = [delay s]) \<or>
                  ((\<exists>e. crawl_step w l mp s = Abort e s') \<and> sl = []))))"
    by blast
  from c have "(u |\<in>| visited s \<and> visited s' = visited s \<and> queue s' = rest \<and>
              fetched s' = fetched s \<and> data s' = data s \<and> slept s' = slept s) \<or>
             (u |\<notin>| visited s \<and> visited s' = finsert u (visited s) \<and>
              fetched s' = fetched s @ [u] \<and> (\<exists>ps. data s' = data s @ map PageData ps))"
  proof
    assume "u |\<in>| visited s \<and> s' = s\<lparr>queue := rest\<rparr> \<and> crawl_step w l mp s = Continue s'"
    then show ?thesis by simp
  next
    assume "u |\<notin>| visited s \<and>
              (\<exists>new ps lg sl.
                 s' = s\<lparr>queue := rest @ new, visited := finsert u (visited s),
                        data := data s @ map PageData ps,
                        logged := logged s @ Crawling u # lg,
                        fetched := fetched s @ [u], slept := slept s @ sl\<rparr> \<and>
                 (\<forall>v\<in>set new. should_crawl l (s\<lparr>visited := finsert u (visited s)\<rparr>) v = Returns True) \<and>
                 ((crawl_step w l mp s = Continue s' \<and> sl = [delay s]) \<or>
                  ((\<exists>e. crawl_step w l mp s = Abort e s') \<and> sl = [])))"
    then obtain new ps lg sl where nv: "u |\<notin>| visited s" and
      "s' = s\<lparr>queue := rest @ new, visited := finsert u (visited s),
                        data := data s @ map PageData ps,
                        logged := logged s @ Crawling u # lg,
                        fetched := fetched s @ [u], slept := slept s @ sl\<rparr>"
      by blast
    then have "visited s' = finsert u (visited s) \<and> fetched s' = fetched s @ [u] \<and>
               data s' = data s @ map PageData ps"
      by simp
    then show ?thesis using nv by blast
  qed
  then show ?thesis using lc q by blast
qed

lemma step_visited_bound:
  assumes "int (fcard (visited s)) \<le> n" and "state_after (crawl_step w l (Some n) s) = Some s'"
  shows "int (fcard (visited s')) \<le> n"
proof -
  from step_visited_cases[OF assms(2)] have lc: "loop_cond (Some n) s" by (rule conjunct1)
  from step_visited_cases[OF assms(2)] obtain u where
    "(u |\<in>| visited s \<and> visited s' = visited s) \<or>
     (u |\<notin>| visited s \<and> visited s' = finsert u (visited s))"
    by blast
  from lc have lt: "int (fcard (visited s)) < n" by (simp add: loop_cond_def)
  from \<open>(u |\<in>| visited s \<and> visited s' = visited s) \<or>
     (u |\<notin>| visited s \<and> visited s' = finsert u (visited s))\<close>
  show ?thesis
  proof
    assume "u |\<in>| visited s \<and> visited s' = visited s"
    then show ?thesis using assms(1) by simp
  next
    assume "u |\<notin>| visited s \<and> visited s' = finsert u (visited s)"
    then have "fcard (visited s') = Suc (fcard (visited s))" by (simp add: fcard_finsert_disjoint)
    then show ?thesis using lt by simp
  qed
qed

lemma crawl_iter_visited_bound:
  assumes "int (fcard (visited s)) \<le> n"
  shows "int (fcard (visited (crawl_iter w l (Some n) k s))) \<le> n"
proof (rule crawl_iter_invariant[where P = "\<lambda>a. int (fcard (visited a)) \<le> n"])
  show "int (fcard (visited s)) \<le> n" by (rule assms)
next
  fix a b
  assume "int (fcard (visited a)) \<le> n" and "state_after (crawl_step w l (Some n) a) = Some b"
  then show "int (fcard (visited b)) \<le> n" by (rule step_visited_bound)
qed

lemma step_visited_mono:
  assumes "state_after (crawl_step w l mp s) = Some s'"
  shows "visited s |\<subseteq>| visited s'"
proof -
  from step_visited_cases[OF assms] obtain u where
    "visited s' = visited s \<or> visited s' = finsert u (visited s)"
    by blast
  then show ?thesis by auto
qed

lemma crawl_iter_visited_mono: "visited s |\<subseteq>| visited (crawl_iter w l mp k s)"
proof (rule crawl_iter_invariant[where P = "\<lambda>a. visited s |\<subseteq>| visited a"])
  show "visited s |\<subseteq>| visited s" by simp
next
  fix a b
  assume "visited s |\<subseteq>| visited a" and "state_after (crawl_step w l mp a) = Some b"
  then show "visited s |\<subseteq>| visited b" using step_visited_mono[of w l mp a b] by blast
qed

lemma step_fetched_visited:
  assumes "distinct (fetched s) \<and> fset_of_list (fetched s) = visited s"
    and "state_after (crawl_step w l mp s) = Some s'"
  shows "distinct (fetched s') \<and> fset_of_list (fetched s') = visited s'"
proof -
  from step_visited_cases[OF assms(2)] obtain u where
    c: "(visited s' = visited s \<and> fetched s' = fetched s) \<or>
        (u |\<notin>| visited s \<and> visited s' = finsert u (visited s) \<and> fetched s' = fetched s @ [u])"
    by blast
  from c show ?thesis
  proof
    assume "visited s' = visited s \<and> fetched s' = fetched s"
    then show ?thesis using assms(1) by simp
  next
    assume a: "u |\<notin>| visited s \<and> visited s' = finsert u (visited s) \<and>
               fetched s' = fetched s @ [u]"
    have "u \<notin> set (fetched s)"
      using a assms(1) by (metis fset_of_list_elem)
    then show ?thesis using a assms(1) by auto
  qed
qed

lemma crawl_iter_fetched_visited:
  assumes "distinct (fetched s) \<and> fset_of_list (fetched s) = visited s"
  shows "distinct (fetched (crawl_iter w l mp k s)) \<and>
         fset_of_list (fetched (crawl_iter w l mp k s)) = visited (crawl_iter w l mp k s)"
proof (rule crawl_iter_invariant[where
        P = "\<lambda>a. distinct (fetched a) \<and> fset_of_list (fetched a) = visited a"])
  show "distinct (fetched s) \<and> fset_of_list (fetched s) = visited s" by (rule assms)
next
  fix a b
  assume "distinct (fetched a) \<and> fset_of_list (fetched a) = visited a"
    and "state_after (crawl_step w l mp a) = Some b"
  then show "distinct (fetched b) \<and> fset_of_list (fetched b) = visited b"
    by (rule step_fetched_visited)
qed

lemma step_data_pages:
  assumes "\<exists>ps. data s = map PageData ps" and "state_after (crawl_step w l mp s) = Some s'"
  shows "\<exists>ps. data s' = map PageData ps"
proof -
  from assms(1) obtain ps where ps: "data s = map PageData ps" by blast
  from step_visited_cases[OF assms(2)] have
    "data s' = data s \<or> (\<exists>qs. data s' = data s @ map PageData qs)"
    by blast
  then show ?thesis
  proof
    assume "data s' = data s"
    then show ?thesis using ps by auto
  next
    assume "\<exists>qs. data s' = data s @ map PageData qs"
    then obtain qs where "data s' = data s @ map PageData qs" by blast
    then have "data s' = map PageData (ps @ qs)" using ps by simp
    then show ?thesis by blast
  qed
qed

lemma crawl_iter_data_pages:
  assumes "\<exists>ps. data s = map PageData ps"
  shows "\<exists>ps. data (crawl_iter w l mp k s) = map PageData ps"
proof (rule crawl_iter_invariant[where P = "\<lambda>a. \<exists>ps. data a = map PageData ps"])
  show "\<exists>ps. data s = map PageData ps" by (rule assms)
next
  fix a b
  assume "\<exists>ps. data a = map PageData ps" and "state_after (crawl_step w l mp a) = Some b"
  then show "\<exists>ps. data b = map PageData ps" by (rule step_data_pages)
qed

lemma crawl_begin_fields:
  "visited (crawl_begin s) = visited s" "fetched (crawl_begin s) = fetched s"
  "data (crawl_begin s) = data s" "queue (crawl_begin s) = [base_url s]"
  "base_url (crawl_begin s) = base_url s"
  by (cases "proxies s = []"; simp add: crawl_begin_empty crawl_begin_nonempty)+

subsection \<open>The loop and its iterations\<close>

lemma crawl_loop_exit:
  "crawl_step w l mp s = Exit \<Longrightarrow> crawl_loop w l mp s = Some (Finished s)"
  by (simp add: crawl_loop.simps)

text \<open>A run that ends, ends in a state that finitely many passes reach.\<close>

lemma crawl_loop_result:
  assumes "crawl_loop w l mp s = Some r"
  shows "\<exists>k. final r = crawl_iter w l mp k s \<and>
             (\<forall>a. r = Finished a \<longrightarrow> crawl_step w l mp a = Exit)"
proof (rule crawl_loop.raw_induct[where
         P = "\<lambda>w l mp s r. \<exists>k. final r = crawl_iter w l mp k s \<and>
                                  (\<forall>a. r = Finished a \<longrightarrow> crawl_step w l mp a = Exit)",
         OF _ assms])
  fix f :: "world \<Rightarrow> lib \<Rightarrow> int option \<Rightarrow> scraper \<Rightarrow> run option"
  fix w l mp s r
  assume ih: "\<And>w l mp s r. f w l mp s = Some r \<Longrightarrow>
                \<exists>k. final r = crawl_iter w l mp k s \<and>
                    (\<forall>a. r = Finished a \<longrightarrow> crawl_step w l mp a = Exit)"
    and body: "(case crawl_step w l mp s of Exit \<Rightarrow> Some (Finished s)
                | Continue s' \<Rightarrow> f w l mp s'
                | Abort e s' \<Rightarrow> Some (Failed e s')) = Some r"
  show "\<exists>k. final r = crawl_iter w l mp k s \<and>
            (\<forall>a. r = Finished a \<longrightarrow> crawl_step w l mp a = Exit)"
  proof (cases "crawl_step w l mp s")
    case Exit
    then have "final r = crawl_iter w l mp 0 s \<and>
               (\<forall>a. r = Finished a \<longrightarrow> crawl_step w l mp a = Exit)"
      using body by auto
    then show ?thesis by blast
  next
    case (Continue s')
    then have "f w l mp s' = Some r" using body by simp
    from ih[OF this] obtain k where
      "final r = crawl_iter w l mp k s' \<and> (\<forall>a. r = Finished a \<longrightarrow> crawl_step w l mp a = Exit)"
      by blast
    then have "final r = crawl_iter w l mp (Suc k) s \<and>
               (\<forall>a. r = Finished a \<longrightarrow> crawl_step w l mp a = Exit)"
      using Continue by simp
    then show ?thesis by blast
  next
    case (Abort e s')
    then have "final r = crawl_iter w l mp (Suc 0) s \<and>
               (\<forall>a. r = Finished a \<longrightarrow> crawl_step w l mp a = Exit)"
      using body by auto
    then show ?thesis by blast
  qed
qed

text \<open>With a page ceiling the loop ends: it exits, or a pass raises.\<close>

lemma crawl_loop_terminates_bounded:
  "\<exists>r. crawl_loop w l (Some n) s = Some r"
proof -
  have "wf (measures [\<lambda>s. nat (n - int (fcard (visited s))), \<lambda>s. length (queue s)])"
    by simp
  then show ?thesis
  proof (induction s rule: wf_induct_rule)
    case (less s)
    show ?case
    proof (cases "crawl_step w l (Some n) s")
      case Exit
      then show ?thesis by (simp add: crawl_loop.simps)
    next
      case (Abort e s')
      then show ?thesis by (simp add: crawl_loop.simps)
    next
      case (Continue s')
      then have sa: "state_after (crawl_step w l (Some n) s) = Some s'" by simp
      from step_visited_cases[OF sa] have lc: "loop_cond (Some n) s" by (rule conjunct1)
      from lc have lt: "int (fcard (visited s)) < n" by (simp add: loop_cond_def)
      from step_visited_cases[OF sa] obtain u rest where q: "queue s = u # rest"
        and d: "(u |\<in>| visited s \<and> visited s' = visited s \<and> queue s' = rest) \<or>
             (u |\<notin>| visited s \<and> visited s' = finsert u (visited s))"
        by blast
      have "(s', s) \<in> measures [\<lambda>s. nat (n - int (fcard (visited s))), \<lambda>s. length (queue s)]"
        using d
      proof
        assume "u |\<in>| visited s \<and> visited s' = visited s \<and> queue s' = rest"
        then show ?thesis using q by simp
      next
        assume "u |\<notin>| visited s \<and> visited s' = finsert u (visited s)"
        then have "fcard (visited s') = Suc (fcard (visited s))"
          by (simp add: fcard_finsert_disjoint)
        then show ?thesis using lt by simp
      qed
      from less[OF this] obtain r where "crawl_loop w l (Some n) s' = Some r" by blast
      then have "crawl_loop w l (Some n) s = Some r"
        using Continue by (simp add: crawl_loop.simps[of w l "Some n" s])
      then show ?thesis by blast
    qed
  qed
qed

subsection \<open>Visiting a URL\<close>

lemma distinct_count_list_le: "distinct xs \<Longrightarrow> count_list xs x \<le> 1"
  by (induction xs) (auto simp add: count_list_0_iff)

lemma crawl_step_visit_leaves:
  assumes "loop_cond mp s" and "queue s = u # rest" and "u |\<notin>| visited s"
  shows "\<exists>s'. state_after (crawl_step w l mp s) = Some s'"
proof -
  let ?r = "handle_html w l u
                   (fst (fetch_page w u (mark_visited u (s\<lparr>queue := rest\<rparr>))))
                   (snd (fetch_page w u (mark_visited u (s\<lparr>queue := rest\<rparr>))))"
  show ?thesis
  proof (cases ?r)
    case (Inl es)
    then show ?thesis
      by (cases es) (simp add: crawl_step_visit_unfold[OF assms])
  next
    case (Inr s3)
    then show ?thesis by (simp add: crawl_step_visit_unfold[OF assms])
  qed
qed

lemma crawl_step_visit_effect:
  assumes "loop_cond mp s" and "queue s = u # rest" and "u |\<notin>| visited s"
  shows "\<exists>s'. state_after (crawl_step w l mp s) = Some s' \<and> fetched s' = fetched s @ [u] \<and>
              visited s' = finsert u (visited s) \<and>
              ((crawl_step w l mp s = Continue s' \<and> slept s' = slept s @ [delay s]) \<or>
               ((\<exists>e. crawl_step w l mp s = Abort e s') \<and> slept s' = slept s))"
proof -
  from crawl_step_visit_leaves[OF assms] obtain s' where
    sa: "state_after (crawl_step w l mp s) = Some s'" by blast
  from crawl_step_effect[OF sa] assms(2,3) obtain new ps lg sl where
    s': "s' = s\<lparr>queue := rest @ new, visited := finsert u (visited s),
                        data := data s @ map PageData ps,
                        logged := logged s @ Crawling u # lg,
                        fetched := fetched s @ [u], slept := slept s @ sl\<rparr>"
    and k: "(crawl_step w l mp s = Continue s' \<and> sl = [delay s]) \<or>
                  ((\<exists>e. crawl_step w l mp s = Abort e s') \<and> sl = [])"
    by auto
  have "fetched s' = fetched s @ [u] \<and> visited s' = finsert u (visited s) \<and>
        slept s' = slept s @ sl"
    by (simp add: s')
  then show ?thesis using sa k by auto
qed

lemma fresh_run_fetched:
  "distinct (fetched (crawl_iter w l mp k (crawl_begin (init w b d)))) \<and>
   fset_of_list (fetched (crawl_iter w l mp k (crawl_begin (init w b d)))) =
     visited (crawl_iter w l mp k (crawl_begin (init w b d)))"
  by (rule crawl_iter_fetched_visited) (simp add: crawl_begin_fields init_fields)

subsection \<open>Enqueued links and the example site\<close>

lemma count_list_filter:
  "count_list (filter P xs) v = (if P v then count_list xs v else 0)"
  by (induction xs) auto

lemma count_list_append: "count_list (xs @ ys) v = count_list xs v + count_list ys v"
  by (induction xs) auto

lemma endswith_iff: "endswith t suf \<longleftrightarrow> (\<exists>x. t = x @ suf)"
proof
  assume "endswith t suf"
  then have "drop (length t - length suf) t = suf" by (simp add: endswith_def)
  then have "t = take (length t - length suf) t @ suf"
    by (metis append_take_drop_id)
  then show "\<exists>x. t = x @ suf" by blast
next
  assume "\<exists>x. t = x @ suf"
  then obtain x where "t = x @ suf" by blast
  then show "endswith t suf" by (simp add: endswith_def)
qed

lemma seed_html_truthy: "seed_html \<noteq> []"
  by (simp add: seed_html_def)

lemma broken_html_truthy: "broken_html \<noteq> []" "broken_html \<noteq> seed_html"
  by (simp_all add: broken_html_def seed_html_def)

lemma example_urlparse:
  "py_urlparse ''http://example.test/'' =
     Returns \<lparr>scheme = ''http'', netloc = ''example.test'', path = ''/'', params = [],
              query = [], fragment = []\<rparr>"
  "py_urlparse ''http://example.test/a'' =
     Returns \<lparr>scheme = ''http'', netloc = ''example.test'', path = ''/a'', params = [],
              query = [], fragment = []\<rparr>"
  "py_urlparse ''http://example.test/b'' =
     Returns \<lparr>scheme = ''http'', netloc = ''example.test'', path = ''/b'', params = [],
              query = [], fragment = []\<rparr>"
  "py_urlparse ''http://other.test/c'' =
     Returns \<lparr>scheme = ''http'', netloc = ''other.test'', path = ''/c'', params = [],
              query = [], fragment = []\<rparr>"
  "py_urlparse ''http://example.test/d.pdf?x=1'' =
     Returns \<lparr>scheme = ''http'', netloc = ''example.test'', path = ''/d.pdf'', params = [],
              query = ''x=1'', fragment = []\<rparr>"
  "py_urlparse ''http://example.test/d.pdf'' =
     Returns \<lparr>scheme = ''http'', netloc = ''example.test'', path = ''/d.pdf'', params = [],
              query = [], fragment = []\<rparr>"
  "py_urlparse ''http://['' = Raises ''Invalid IPv6 URL''"
  by (simp_all add: py_urlparse_def split_scheme_def split_netloc_def partition_at_def
      uses_params_def split_params_def isalpha_def scheme_char_def lower_def Let_def)

lemma example_parse:
  "parse_page example_lib t (Some seed_html) u =
     Returns (PageData
       \<lparr>url = u, timestamp = t, title = Some ''Seed'',
        links = [\<lparr>link_text = ''A'', link_url = ''http://example.test/a''\<rparr>,
                 \<lparr>link_text = ''A'', link_url = ''http://example.test/a''\<rparr>,
                 \<lparr>link_text = ''B'', link_url = ''http://example.test/b''\<rparr>,
                 \<lparr>link_text = ''C'', link_url = ''http://other.test/c''\<rparr>,
                 \<lparr>link_text = ''D'', link_url = ''http://example.test/d.pdf?x=1''\<rparr>],
        emails = [], phones = [], forms = [], metadata = Map.empty\<rparr>)"
  by (simp add: parse_page_def seed_html_truthy example_lib_def seed_soup_def example_urlparse
      tag_get_def strip_def isspace_def list_set_def extract_metadata_def)

lemma example_parse_broken:
  "parse_page example_lib t (Some broken_html) u = Raises ''Invalid IPv6 URL''"
  by (simp add: parse_page_def broken_html_truthy example_lib_def broken_soup_def example_urlparse
      tag_get_def)

lemma init_base_url: "base_url (init w b d) = b"
  by (simp add: init_def)

lemma example_lib_urlparse: "urlparse example_lib = py_urlparse"
  by (simp add: example_lib_def)

lemma example_should_crawl:
  "should_crawl example_lib s v =
     (case py_urlparse v of
        Raises e \<Rightarrow> Raises e
      | Returns parsed \<Rightarrow>
          (case py_urlparse (base_url s) of
             Raises e \<Rightarrow> Raises e
           | Returns base_parsed \<Rightarrow>
               Returns (netloc parsed = netloc base_parsed \<and> v |\<notin>| visited s \<and>
                        \<not> endswith_any v [''.pdf'', ''.jpg'', ''.png'', ''.gif''])))"
  unfolding should_crawl_def example_lib_urlparse by (rule refl)

text \<open>
  The exception of a library call leaves \<^verbatim>\<open>crawl\<close>: on the page \<^verbatim>\<open>/e\<close> of the example
  site, \<^verbatim>\<open>urljoin\<close> raises on the link \<^verbatim>\<open>http://[\<close>, after the page was claimed and
  fetched and before anything is stored.
\<close>

lemma example_get_e:
  "session_get example_world [] ''http://example.test/e'' =
     Returns \<lparr>status = 200, body = Returns broken_html\<rparr>"
  by (simp add: example_world_def)

lemma broken_link_aborts:
  "\<exists>s'. crawl example_world example_lib None (init example_world ''http://example.test/e'' 1) =
          Some (Failed (Raised ''Invalid IPv6 URL'') s') \<and>
        data s' = [] \<and> fetched s' = [''http://example.test/e''] \<and>
        visited s' = {|''http://example.test/e''|} \<and> slept s' = []"
proof -
  let ?u = "''http://example.test/e''"
  let ?s = "crawl_begin (init example_world ?u 1)"
  have q: "queue ?s = ?u # []" by (simp add: crawl_begin_fields init_base_url)
  have lc: "loop_cond None ?s" by (simp add: loop_cond_def q)
  have nv: "?u |\<notin>| visited ?s" by (simp add: crawl_begin_fields init_fields)
  have f: "fst (fetch_page example_world ?u (mark_visited ?u (?s\<lparr>queue := []\<rparr>))) = Some broken_html"
    by (simp add: fetch_page_eq mark_visited_def crawl_begin_fields init_fields example_get_e)
  have t: "truthy (fst (fetch_page example_world ?u (mark_visited ?u (?s\<lparr>queue := []\<rparr>))))"
    by (simp add: f truthy_def broken_html_truthy)
  have p: "parse_page example_lib (now example_world (Suc (length (fetched ?s))))
             (fst (fetch_page example_world ?u (mark_visited ?u (?s\<lparr>queue := []\<rparr>)))) ?u =
           Raises ''Invalid IPv6 URL''"
    by (simp only: f example_parse_broken)
  from crawl_step_parse_raises[OF lc q nv t p] obtain lg where
    st: "crawl_step example_world example_lib None ?s =
           Abort (Raised ''Invalid IPv6 URL'')
             (?s\<lparr>queue := [], visited := finsert ?u (visited ?s),
                  logged := logged ?s @ Crawling ?u # lg,
                  fetched := fetched ?s @ [?u]\<rparr>)"
    by blast
  have "crawl example_world example_lib None (init example_world ?u 1) =
          Some (Failed (Raised ''Invalid IPv6 URL'')
             (?s\<lparr>queue := [], visited := finsert ?u (visited ?s),
                  logged := logged ?s @ Crawling ?u # lg,
                  fetched := fetched ?s @ [?u]\<rparr>))"
    by (simp add: crawl_def crawl_loop.simps st)
  moreover have "slept ?s = []" "data ?s = []" "fetched ?s = []" "visited ?s = {||}"
    by (cases "proxies (init example_world ?u 1) = []";
        simp add: crawl_begin_empty crawl_begin_nonempty init_def)+
  ultimately show ?thesis by simp
qed

lemma fetch_page_None_iff:
  "fst (fetch_page w u s) = None \<longleftrightarrow>
     \<not> (\<exists>r t. session_get w (fetched s) u = Returns r \<and> status r = 200 \<and> body r = Returns t)"
  by (auto simp add: fetch_page_eq split: attempt.splits if_splits)

lemma fresh_run_data:
  "list_all is_dict (data (crawl_iter w l mp k (crawl_begin (init w b d))))"
proof -
  have "\<exists>ps. data (crawl_begin (init w b d)) = map PageData ps"
    by (simp add: crawl_begin_fields init_fields)
  from crawl_iter_data_pages[OF this, of w l mp k] obtain ps where
    "data (crawl_iter w l mp k (crawl_begin (init w b d))) = map PageData ps" by blast
  then show ?thesis by (simp add: list_all_iff)
qed

section \<open>The claims\<close>

text \<open>
  C8. With a non-empty proxy list of length \<open>n\<close>, \<^verbatim>\<open>rotate_proxy\<close> moves the cursor to
  \<open>(current + 1) mod n\<close> and returns the proxy at the new cursor; when the cursor starts
  inside the list, \<open>n\<close> successive calls bring the state back and the last of them returns
  the proxy the cursor started on. The one call \<^verbatim>\<open>crawl\<close> makes on a fresh scraper returns
  the second proxy when there are at least two. With an empty list every call returns
  \<^verbatim>\<open>None\<close> and \<^verbatim>\<open>crawl\<close> connects directly; a missing \<^verbatim>\<open>proxies.txt\<close> gives the empty list.
\<close>

theorem rotate_proxy_round_robin:
  "(proxies s \<noteq> [] \<longrightarrow>
      rotate_proxy s =
        (Some (proxies s ! nat ((current_proxy s + 1) mod int (length (proxies s)))),
         s\<lparr>current_proxy := (current_proxy s + 1) mod int (length (proxies s))\<rparr>) \<and>
      (0 \<le> current_proxy s \<and> current_proxy s < int (length (proxies s)) \<longrightarrow>
         snd (rotations (length (proxies s)) s) = s \<and>
         last (fst (rotations (length (proxies s)) s)) = Some (proxies s ! nat (current_proxy s)))) \<and>
   (2 \<le> length (load_proxies w) \<longrightarrow>
      connector (crawl_begin (init w b d)) = Some (load_proxies w ! 1)) \<and>
   (proxies s = [] \<longrightarrow>
      rotations k s = (replicate k None, s) \<and> connector (crawl_begin s) = None) \<and>
   (proxies_txt w = None \<longrightarrow>
      proxies (init w b d) = [] \<and> connector (crawl_begin (init w b d)) = None)"
proof (intro conjI impI)
  assume ne: "proxies s \<noteq> []"
  show "rotate_proxy s =
        (Some (proxies s ! nat ((current_proxy s + 1) mod int (length (proxies s)))),
         s\<lparr>current_proxy := (current_proxy s + 1) mod int (length (proxies s))\<rparr>)"
    using ne by (rule rotate_proxy_nonempty)
  assume range: "0 \<le> current_proxy s \<and> current_proxy s < int (length (proxies s))"
  let ?n = "length (proxies s)"
  have pos: "0 < ?n" using ne by simp
  have wrap: "(current_proxy s + int ?n) mod int ?n = current_proxy s"
    using range by simp
  show "snd (rotations ?n s) = s"
    using rotations_state[OF ne pos] wrap by simp
  have "fst (rotations ?n s) \<noteq> []"
    using rotations_length[of ?n s] pos by (metis length_0_conv less_numeral_extra(3))
  then have "last (fst (rotations ?n s)) = fst (rotations ?n s) ! (?n - 1)"
    by (simp add: last_conv_nth rotations_length)
  also have "\<dots> = Some (proxies s ! nat ((current_proxy s + int (?n - 1) + 1) mod int ?n))"
    by (rule rotations_nth[OF ne]) (use pos in simp)
  also have "current_proxy s + int (?n - 1) + 1 = current_proxy s + int ?n"
  proof -
    obtain m where m: "?n = Suc m" using pos by (cases ?n) auto
    show ?thesis unfolding m by simp
  qed
  also have "(current_proxy s + int ?n) mod int ?n = current_proxy s"
    by (rule wrap)
  finally show "last (fst (rotations ?n s)) = Some (proxies s ! nat (current_proxy s))" .
next
  assume two: "2 \<le> length (load_proxies w)"
  then have ne: "proxies (init w b d) \<noteq> []" by (auto simp add: init_def)
  have "(1::int) mod int (length (load_proxies w)) = 1" using two by simp
  then show "connector (crawl_begin (init w b d)) = Some (load_proxies w ! 1)"
    using ne by (simp add: crawl_begin_nonempty) (simp add: init_def)
next
  assume "proxies s = []"
  then show "rotations k s = (replicate k None, s)" by (rule rotations_empty)
next
  assume "proxies s = []"
  then show "connector (crawl_begin s) = None" by (simp add: crawl_begin_empty)
next
  assume "proxies_txt w = None"
  then show "proxies (init w b d) = []" by (simp add: init_def load_proxies_absent)
next
  assume "proxies_txt w = None"
  then show "connector (crawl_begin (init w b d)) = None"
    by (simp add: crawl_begin_empty init_def load_proxies_absent)
qed


theorem rotate_proxy_round_robin_witness:
  "proxies (init example_world ''http://example.test/'' 1) \<noteq> [] \<and>
   0 \<le> current_proxy (init example_world ''http://example.test/'' 1) \<and>
   2 \<le> length (load_proxies example_world) \<and>
   fst (rotate_proxy (init example_world ''http://example.test/'' 1)) = Some ''http://p2:8080'' \<and>
   snd (rotations 3 (init example_world ''http://example.test/'' 1)) =
     init example_world ''http://example.test/'' 1 \<and>
   last (fst (rotations 3 (init example_world ''http://example.test/'' 1))) = Some ''http://p1:8080'' \<and>
   connector (crawl_begin (init example_world ''http://example.test/'' 1)) = Some ''http://p2:8080'' \<and>
   proxies_txt (example_world\<lparr>proxies_txt := None\<rparr>) = None \<and>
   fst (rotations 2 (init (example_world\<lparr>proxies_txt := None\<rparr>) ''http://example.test/'' 1)) =
     [None, None] \<and>
   connector (crawl_begin (init (example_world\<lparr>proxies_txt := None\<rparr>) ''http://example.test/'' 1)) =
     None"
proof -
  let ?s = "init example_world ''http://example.test/'' 1"
  let ?v = "example_world\<lparr>proxies_txt := None\<rparr>"
  let ?e = "init ?v ''http://example.test/'' 1"
  have p: "proxies ?s = [''http://p1:8080'', ''http://p2:8080'', ''http://p3:8080'']"
    by (simp add: init_def example_proxies)
  have c: "current_proxy ?s = 0" by (simp add: init_def)
  have e: "proxies ?e = []" by (simp add: init_def load_proxies_def)
  have n: "proxies_txt ?v = None" by simp
  have ne: "proxies ?s \<noteq> []" by (simp add: p)
  have l3: "length (proxies ?s) = 3" by (simp add: p)
  have rg: "0 \<le> current_proxy ?s \<and> current_proxy ?s < int (length (proxies ?s))"
    by (simp add: p c)
  have two: "2 \<le> length (load_proxies example_world)" by (simp add: example_proxies)
  note A = rotate_proxy_round_robin[where s = ?s and w = example_world
            and b = "''http://example.test/''" and d = 1]
  note B = rotate_proxy_round_robin[where s = ?e and w = ?v
            and b = "''http://example.test/''" and d = 1 and k = 2]
  from A ne have "rotate_proxy ?s =
      (Some (proxies ?s ! nat ((current_proxy ?s + 1) mod int (length (proxies ?s)))),
       ?s\<lparr>current_proxy := (current_proxy ?s + 1) mod int (length (proxies ?s))\<rparr>)"
    by blast
  then have r1: "fst (rotate_proxy ?s) = Some ''http://p2:8080''"
    by (simp add: p c)
  from A ne rg have "snd (rotations (length (proxies ?s)) ?s) = ?s"
    by blast
  then have r2: "snd (rotations 3 ?s) = ?s" by (simp only: l3)
  from A ne rg have "last (fst (rotations (length (proxies ?s)) ?s)) =
      Some (proxies ?s ! nat (current_proxy ?s))"
    by blast
  then have r3: "last (fst (rotations 3 ?s)) = Some ''http://p1:8080''"
    by (simp only: l3) (simp add: p c)
  from A two have "connector (crawl_begin ?s) = Some (load_proxies example_world ! 1)"
    by blast
  then have r4: "connector (crawl_begin ?s) = Some ''http://p2:8080''"
    by (simp add: example_proxies)
  from B e have "rotations 2 ?e = (replicate 2 None, ?e)" by blast
  then have r5: "fst (rotations 2 ?e) = [None, None]"
    by (simp add: numeral_2_eq_2)
  from B n have r6: "connector (crawl_begin ?e) = None" by blast
  show ?thesis
    using ne rg two r1 r2 r3 r4 n r5 r6 by blast
qed

text \<open>
  C7. When the store holds the page records \<open>ps\<close> and is not empty, \<^verbatim>\<open>export_data\<close> writes
  the dump, the table and a summary whose page count is the size of the visited set, whose
  four totals are the sums of the lengths of the records' link, email, phone and form
  lists, and whose start and end times are the least and the greatest record timestamp.
  It raises (the \<^verbatim>\<open>ValueError\<close> of \<^verbatim>\<open>min\<close> on an empty sequence) exactly when the store is
  empty.
\<close>

theorem export_data_summary:
  assumes "data s = map PageData ps"
  shows "(ps \<noteq> [] \<longrightarrow>
           export_data ts s =
             ([(''scraping_results_'' @ ts @ ''.json'', JsonDump (data s)),
               (''scraping_results_'' @ ts @ ''.csv'', CsvTable (data s)),
               (''scraping_summary_'' @ ts @ ''.json'',
                SummaryJson
                  \<lparr>pages_scraped = fcard (visited s),
                   total_links = sum_list (map (\<lambda>p. length (links p)) ps),
                   total_emails = sum_list (map (\<lambda>p. length (emails p)) ps),
                   total_phones = sum_list (map (\<lambda>p. length (phones p)) ps),
                   total_forms = sum_list (map (\<lambda>p. length (forms p)) ps),
                   start_time = Min (set (map timestamp ps)),
                   end_time = Max (set (map timestamp ps))\<rparr>)],
              None)) \<and>
         (ps = [] \<longrightarrow> snd (export_data ts s) = Some ValueError) \<and>
         (snd (export_data ts s) \<noteq> None \<longleftrightarrow> ps = [])"
proof (cases "ps = []")
  case True
  then have "data s = []" using assms by simp
  then have "build_summary s = Inl ValueError" by (rule build_summary_empty)
  then show ?thesis using True \<open>data s = []\<close> by (simp add: export_data_def json_normalize_def)
next
  case False
  have "json_normalize (data s) = Inr (data s)"
    by (simp only: assms json_normalize_pages)
  then show ?thesis
    using False by (simp add: export_data_def build_summary_pages[OF assms False])
qed

theorem export_data_summary_witness:
  "export_data ''20240101_100000'' example_store =
     ([(''scraping_results_20240101_100000.json'', JsonDump (data example_store)),
       (''scraping_results_20240101_100000.csv'', CsvTable (data example_store)),
       (''scraping_summary_20240101_100000.json'',
        SummaryJson
          \<lparr>pages_scraped = 3, total_links = 3, total_emails = 1, total_phones = 1,
           total_forms = 1, start_time = ''2024-01-01T10:00:01.5'',
           end_time = ''2024-01-01T10:00:02''\<rparr>)],
      None) \<and>
   (snd (export_data ''20240101_100000'' example_store) \<noteq> None \<longleftrightarrow> data example_store = [])"
proof -
  let ?ps = "[\<lparr>url = ''http://example.test/'', timestamp = ''2024-01-01T10:00:02'',
              title = Some ''Seed'',
              links = [\<lparr>link_text = ''A'', link_url = ''http://example.test/a''\<rparr>,
                       \<lparr>link_text = ''B'', link_url = ''http://example.test/b''\<rparr>],
              emails = [''a@b.com''], phones = [], forms = [], metadata = Map.empty\<rparr>,
             \<lparr>url = ''http://example.test/b'', timestamp = ''2024-01-01T10:00:01.5'',
              title = None,
              links = [\<lparr>link_text = [], link_url = ''http://example.test/''\<rparr>],
              emails = [], phones = [''555-123-4567''],
              forms = [\<lparr>form_action = None, form_method = Some ''post'', inputs = []\<rparr>],
              metadata = Map.empty\<rparr>]"
  have d: "data example_store = map PageData ?ps"
    by (simp add: example_store_def)
  have v: "fcard (visited example_store) = 3"
    by (simp add: example_store_def fcard_finsert_if)
  have lo: "Min (set (map timestamp ?ps)) = ''2024-01-01T10:00:01.5''"
    by (simp add: min_def)
  have hi: "Max (set (map timestamp ?ps)) = ''2024-01-01T10:00:02''"
    by (simp add: max_def)
  have ne: "?ps \<noteq> []" by simp
  show ?thesis
    using export_data_summary[OF d, of "''20240101_100000''"] ne
    unfolding lo hi v
    by (simp add: d)
qed

text \<open>
  C10. With an empty store \<^verbatim>\<open>export_data\<close> is not atomic: the four sums are 0, the
  \<^verbatim>\<open>min\<close> of the timestamps raises \<^verbatim>\<open>ValueError\<close>, and by then the JSON dump and the CSV
  table have been written; the summary file is not.
\<close>

theorem export_data_empty_store:
  assumes "data s = []"
  shows "sum_len links (data s) = Inr 0 \<and> sum_len emails (data s) = Inr 0 \<and>
         sum_len phones (data s) = Inr 0 \<and> sum_len forms (data s) = Inr 0 \<and>
         and_then (fields timestamp (data s)) py_min = Inl ValueError \<and>
         export_data ts s =
           ([(''scraping_results_'' @ ts @ ''.json'', JsonDump []),
             (''scraping_results_'' @ ts @ ''.csv'', CsvTable [])],
            Some ValueError)"
  using assms
  by (simp add: export_data_def json_normalize_def build_summary_empty sum_len_def and_then_def
      py_min_def)


theorem export_data_empty_store_witness:
  "data (init example_world ''http://example.test/'' 1) = [] \<and>
   export_data ''20240101_100000'' (init example_world ''http://example.test/'' 1) =
     ([(''scraping_results_20240101_100000.json'', JsonDump []),
       (''scraping_results_20240101_100000.csv'', CsvTable [])],
      Some ValueError)"
proof -
  have d: "data (init example_world ''http://example.test/'' 1) = []"
    by (simp add: init_def)
  show ?thesis
    using export_data_empty_store[OF d, of "''20240101_100000''"] d by simp
qed

text \<open>
  C6. Applied to absent HTML (\<^verbatim>\<open>None\<close>) or to the empty string, \<^verbatim>\<open>parse_page\<close> does not
  fail, and what it returns is the empty list \<^verbatim>\<open>[]\<close>, not a record: the value is not a
  dict, it has no \<^verbatim>\<open>links\<close>, \<^verbatim>\<open>emails\<close>, \<^verbatim>\<open>phones\<close>, \<^verbatim>\<open>forms\<close> or \<^verbatim>\<open>title\<close> field, and
  reading a field of it raises \<^verbatim>\<open>TypeError\<close>. On non-empty HTML \<^verbatim>\<open>parse_page\<close> never
  returns it, and \<^verbatim>\<open>crawl\<close> parses non-empty HTML only, so the store of a run of a fresh
  scraper holds dicts only.
\<close>

theorem parse_page_empty_html:
  "parse_page l t None u = Returns EmptyList \<and>
   parse_page l t (Some []) u = Returns EmptyList \<and>
   \<not> is_dict EmptyList \<and>
   fields f (EmptyList # ds) = Inl TypeError \<and>
   (truthy html \<longrightarrow> parse_page l t html u \<noteq> Returns EmptyList) \<and>
   list_all is_dict (data (crawl_iter w l mp k (crawl_begin (init w b d))))"
proof (intro conjI impI)
  show "parse_page l t None u = Returns EmptyList" by (simp add: parse_page_def)
  show "parse_page l t (Some []) u = Returns EmptyList" by (simp add: parse_page_def)
  show "\<not> is_dict EmptyList" by simp
  show "fields f (EmptyList # ds) = Inl TypeError" by simp
  show "list_all is_dict (data (crawl_iter w l mp k (crawl_begin (init w b d))))"
    by (rule fresh_run_data)
next
  assume "truthy html"
  then show "parse_page l t html u \<noteq> Returns EmptyList" by (rule parse_page_truthy)
qed

theorem parse_page_empty_html_witness:
  "parse_page example_lib ''2024-01-01T10:00:00'' None ''http://example.test/'' = Returns EmptyList \<and>
   truthy (Some seed_html) \<and>
   parse_page example_lib ''2024-01-01T10:00:00'' (Some seed_html) ''http://example.test/'' \<noteq>
     Returns EmptyList \<and>
   fields links [EmptyList] = Inl TypeError"
proof -
  have t: "truthy (Some seed_html)" by (simp add: truthy_def seed_html_truthy)
  show ?thesis
    using parse_page_empty_html[where l = example_lib and t = "''2024-01-01T10:00:00''"
        and u = "''http://example.test/''" and html = "Some seed_html" and f = links
        and ds = "[]"] t
    by blast
qed

text \<open>
  The value returned for absent HTML is not the record without links, emails, phones,
  forms and title: summing the links of a store that holds it raises \<^verbatim>\<open>TypeError\<close>, where
  that record counts 0.
\<close>

theorem parse_page_empty_is_no_record:
  "parse_page example_lib ''2024-01-01T10:00:00'' None ''http://example.test/'' = Returns EmptyList \<and>
   parse_page example_lib ''2024-01-01T10:00:00'' (Some []) ''http://example.test/'' =
     Returns EmptyList \<and>
   EmptyList \<noteq>
     PageData \<lparr>url = ''http://example.test/'', timestamp = ''2024-01-01T10:00:00'', title = None,
               links = [], emails = [], phones = [], forms = [], metadata = Map.empty\<rparr> \<and>
   sum_len links [EmptyList] = Inl TypeError \<and>
   sum_len links
     [PageData \<lparr>url = ''http://example.test/'', timestamp = ''2024-01-01T10:00:00'', title = None,
                links = [], emails = [], phones = [], forms = [], metadata = Map.empty\<rparr>] = Inr 0"
  by (simp add: parse_page_def sum_len_def and_then_def)

text \<open>
  C4. \<^verbatim>\<open>fetch_page\<close> issues one request and no more. It returns the body exactly when a
  response with status 200 arrives and its body is read; in every other case it returns
  the same value \<^verbatim>\<open>None\<close>, and the kind of failure shows in the log line only. On another
  status it logs the warning with the status code. When the request or the reading of the
  body (also of a response with status 200) raises an exception of class \<^verbatim>\<open>Exception\<close>
  (timeout, transport failure), the exception stops at the handler, which logs the error
  with the exception's text. The caller takes \<^verbatim>\<open>None\<close> as nothing to extract and goes on
  with the loop.
\<close>

theorem fetch_page_outcomes:
  "fetched (snd (fetch_page w u s)) = fetched s @ [u] \<and>
   (fst (fetch_page w u s) = Some t \<longleftrightarrow>
      (\<exists>r. session_get w (fetched s) u = Returns r \<and> status r = 200 \<and> body r = Returns t)) \<and>
   (fst (fetch_page w u s) = None \<longleftrightarrow>
      \<not> (\<exists>r t. session_get w (fetched s) u = Returns r \<and> status r = 200 \<and> body r = Returns t)) \<and>
   (session_get w (fetched s) u = Returns r \<and> status r \<noteq> 200 \<longrightarrow>
      fetch_page w u s =
        (None, s\<lparr>fetched := fetched s @ [u],
                  logged := logged s @ [FailedToFetch u (status r)]\<rparr>)) \<and>
   (session_get w (fetched s) u = Raises e \<or>
    (\<exists>r. session_get w (fetched s) u = Returns r \<and> status r = 200 \<and> body r = Raises e) \<longrightarrow>
      fst (fetch_page_try w u s) = Raises e \<and>
      fetch_page w u s =
        (None, s\<lparr>fetched := fetched s @ [u], logged := logged s @ [ErrorFetching u e]\<rparr>)) \<and>
   (loop_cond mp c \<and> queue c = u # rest \<and> u |\<notin>| visited c \<and>
    fst (fetch_page w u (mark_visited u (c\<lparr>queue := rest\<rparr>))) = None \<longrightarrow>
      (\<exists>c'. crawl_step w l mp c = Continue c' \<and> data c' = data c \<and> queue c' = rest))"
proof (intro conjI impI)
  show "fetched (snd (fetch_page w u s)) = fetched s @ [u]" by (rule fetch_page_fetched)
  show "fst (fetch_page w u s) = Some t \<longleftrightarrow>
      (\<exists>r. session_get w (fetched s) u = Returns r \<and> status r = 200 \<and> body r = Returns t)"
    by (rule fetch_page_Some_iff)
  show "fst (fetch_page w u s) = None \<longleftrightarrow>
      \<not> (\<exists>r t. session_get w (fetched s) u = Returns r \<and> status r = 200 \<and> body r = Returns t)"
    by (rule fetch_page_None_iff)
next
  assume "session_get w (fetched s) u = Returns r \<and> status r \<noteq> 200"
  then show "fetch_page w u s =
        (None, s\<lparr>fetched := fetched s @ [u],
                  logged := logged s @ [FailedToFetch u (status r)]\<rparr>)"
    by (simp add: fetch_page_bad_status)
next
  assume a: "session_get w (fetched s) u = Raises e \<or>
    (\<exists>r. session_get w (fetched s) u = Returns r \<and> status r = 200 \<and> body r = Raises e)"
  then show r: "fst (fetch_page_try w u s) = Raises e"
    by (simp add: fetch_page_try_raises_iff)
  then show "fetch_page w u s =
        (None, s\<lparr>fetched := fetched s @ [u], logged := logged s @ [ErrorFetching u e]\<rparr>)"
    by (rule fetch_page_raised)
next
  assume "loop_cond mp c \<and> queue c = u # rest \<and> u |\<notin>| visited c \<and>
    fst (fetch_page w u (mark_visited u (c\<lparr>queue := rest\<rparr>))) = None"
  then show "\<exists>c'. crawl_step w l mp c = Continue c' \<and> data c' = data c \<and> queue c' = rest"
    using crawl_step_fetch_None[of mp c u rest w l] by blast
qed

theorem fetch_page_outcomes_witness:
  "fst (fetch_page example_world ''http://example.test/''
          (init example_world ''http://example.test/'' 1)) = Some seed_html \<and>
   fetch_page example_world ''http://example.test/a''
          (init example_world ''http://example.test/'' 1) =
     (None, (init example_world ''http://example.test/'' 1)
              \<lparr>fetched := [''http://example.test/a''],
               logged := [FailedToFetch ''http://example.test/a'' 404]\<rparr>) \<and>
   fetch_page example_world ''http://example.test/b''
          (init example_world ''http://example.test/'' 1) =
     (None, (init example_world ''http://example.test/'' 1)
              \<lparr>fetched := [''http://example.test/b''],
               logged := [ErrorFetching ''http://example.test/b'' ''timeout'']\<rparr>) \<and>
   fetch_page dropping_world ''http://example.test/''
          (init dropping_world ''http://example.test/'' 1) =
     (None, (init dropping_world ''http://example.test/'' 1)
              \<lparr>fetched := [''http://example.test/''],
               logged := [ErrorFetching ''http://example.test/''
                            ''Response payload is not completed'']\<rparr>) \<and>
   (\<exists>c'. crawl_step example_world example_lib None
            ((init example_world ''http://example.test/'' 1)\<lparr>queue := [''http://example.test/a'']\<rparr>) =
           Continue c' \<and> data c' = [] \<and> queue c' = [])"
proof -
  let ?S = "init example_world ''http://example.test/'' 1"
  let ?D = "init dropping_world ''http://example.test/'' 1"
  let ?A = "''http://example.test/a''"
  let ?B = "''http://example.test/b''"
  let ?r = "\<lparr>status = 404, body = Returns ''gone''\<rparr>"
  let ?c = "?S\<lparr>queue := [?A]\<rparr>"
  have ok: "fst (fetch_page example_world ''http://example.test/'' ?S) = Some seed_html"
    using fetch_page_outcomes[where w = example_world and u = "''http://example.test/''"
        and s = ?S and t = seed_html]
    by (simp add: init_fields example_get_seed)
  have bad: "fetch_page example_world ?A ?S =
      (None, ?S\<lparr>fetched := [?A], logged := [FailedToFetch ?A 404]\<rparr>)"
    using fetch_page_outcomes[where w = example_world and u = ?A and s = ?S and r = ?r]
    by (simp add: init_fields example_get_a)
  have net: "fetch_page example_world ?B ?S =
      (None, ?S\<lparr>fetched := [?B], logged := [ErrorFetching ?B ''timeout'']\<rparr>)"
    using fetch_page_outcomes[where w = example_world and u = ?B and s = ?S and e = "''timeout''"]
    by (simp add: init_fields example_get_b)
  have drop: "fetch_page dropping_world ''http://example.test/'' ?D =
      (None, ?D\<lparr>fetched := [''http://example.test/''],
                logged := [ErrorFetching ''http://example.test/''
                             ''Response payload is not completed'']\<rparr>)"
    using fetch_page_outcomes[where w = dropping_world and u = "''http://example.test/''"
        and s = ?D and e = "''Response payload is not completed''"]
    by (simp add: init_fields dropping_world_def)
  have pre: "loop_cond None ?c \<and> queue ?c = ?A # [] \<and> ?A |\<notin>| visited ?c \<and>
      fst (fetch_page example_world ?A (mark_visited ?A (?c\<lparr>queue := []\<rparr>))) = None"
    by (simp add: loop_cond_def init_fields fetch_page_eq mark_visited_def example_get_a)
  have go: "\<exists>c'. crawl_step example_world example_lib None ?c = Continue c' \<and>
      data c' = [] \<and> queue c' = []"
    using fetch_page_outcomes[where w = example_world and u = ?A and c = ?c and mp = None
        and rest = "[]" and l = example_lib] pre
    by (simp add: init_fields)
  show ?thesis using ok bad net drop go by blast
qed

text \<open>
  The body is not returned exactly when the status is 200, and the two kinds of failure
  are not told apart by what is returned: a response with status 200 whose body cannot be
  read gives \<^verbatim>\<open>None\<close>, as do the status 404 and the timeout.
\<close>

theorem fetch_page_status_200_without_body:
  "session_get dropping_world [] ''http://example.test/'' =
     Returns \<lparr>status = 200, body = Raises ''Response payload is not completed''\<rparr> \<and>
   fst (fetch_page dropping_world ''http://example.test/''
          (init dropping_world ''http://example.test/'' 1)) = None \<and>
   session_get example_world [] ''http://example.test/a'' =
     Returns \<lparr>status = 404, body = Returns ''gone''\<rparr> \<and>
   fst (fetch_page example_world ''http://example.test/a''
          (init example_world ''http://example.test/'' 1)) = None \<and>
   session_get example_world [] ''http://example.test/b'' = Raises ''timeout'' \<and>
   fst (fetch_page example_world ''http://example.test/b''
          (init example_world ''http://example.test/'' 1)) = None"
  by (simp add: fetch_page_eq init_fields example_get_a example_get_b dropping_world_def)

text \<open>
  C5. When the fetch of a dequeued, not yet visited URL fails, that is when \<^verbatim>\<open>fetch_page\<close>
  returns \<^verbatim>\<open>None\<close> (the request raises, the status is not 200, or the body cannot be
  read), that pass appends no record, enqueues no link (the frontier is the rest of the
  queue), leaves the URL in the visited set, and the loop goes on from there.
\<close>

theorem failed_fetch_leaves_store_and_frontier:
  assumes "loop_cond mp s" and "queue s = u # rest" and "u |\<notin>| visited s"
    and "fst (fetch_page w u (mark_visited u (s\<lparr>queue := rest\<rparr>))) = None"
  shows "\<exists>s'. crawl_step w l mp s = Continue s' \<and>
              data s' = data s \<and> queue s' = rest \<and>
              visited s' = finsert u (visited s) \<and> u |\<in>| visited s' \<and>
              crawl_iter w l mp (Suc k) s = crawl_iter w l mp k s'"
proof -
  from crawl_step_fetch_None[OF assms, of l] obtain s' where
    s': "crawl_step w l mp s = Continue s'" "data s' = data s" "queue s' = rest"
        "visited s' = finsert u (visited s)"
    by blast
  have "crawl_iter w l mp (Suc k) s = crawl_iter w l mp k s'"
    by (simp add: s'(1))
  then show ?thesis using s' by simp
qed

theorem failed_fetch_leaves_store_and_frontier_witness:
  "(\<exists>s'. crawl_step example_world example_lib None
           ((init example_world ''http://example.test/'' 1)
              \<lparr>queue := [''http://example.test/a'', ''http://example.test/b'']\<rparr>) = Continue s' \<and>
        data s' = [] \<and> queue s' = [''http://example.test/b''] \<and>
        ''http://example.test/a'' |\<in>| visited s') \<and>
   (\<exists>s'. crawl_step dropping_world example_lib None
           ((init dropping_world ''http://example.test/'' 1)
              \<lparr>queue := [''http://example.test/'', ''http://example.test/b'']\<rparr>) = Continue s' \<and>
        data s' = [] \<and> queue s' = [''http://example.test/b''] \<and>
        ''http://example.test/'' |\<in>| visited s')"
proof -
  let ?S = "init example_world ''http://example.test/'' 1"
  let ?D = "init dropping_world ''http://example.test/'' 1"
  let ?A = "''http://example.test/a''"
  let ?B = "''http://example.test/b''"
  let ?U = "''http://example.test/''"
  let ?c = "?S\<lparr>queue := [?A, ?B]\<rparr>"
  let ?d = "?D\<lparr>queue := [?U, ?B]\<rparr>"
  have 1: "loop_cond None ?c" by (simp add: loop_cond_def)
  have 2: "queue ?c = ?A # [?B]" by simp
  have 3: "?A |\<notin>| visited ?c" by (simp add: init_fields)
  have 4: "fst (fetch_page example_world ?A (mark_visited ?A (?c\<lparr>queue := [?B]\<rparr>))) = None"
    by (simp add: fetch_page_eq mark_visited_def init_fields example_get_a)
  have a: "\<exists>s'. crawl_step example_world example_lib None ?c = Continue s' \<and>
        data s' = [] \<and> queue s' = [?B] \<and> ?A |\<in>| visited s'"
    using failed_fetch_leaves_store_and_frontier[OF 1 2 3 4, of example_lib 0]
    by (auto simp add: init_fields)
  have 5: "loop_cond None ?d" by (simp add: loop_cond_def)
  have 6: "queue ?d = ?U # [?B]" by simp
  have 7: "?U |\<notin>| visited ?d" by (simp add: init_fields)
  have 8: "fst (fetch_page dropping_world ?U (mark_visited ?U (?d\<lparr>queue := [?B]\<rparr>))) = None"
    by (simp add: fetch_page_eq mark_visited_def init_fields dropping_world_def)
  have b: "\<exists>s'. crawl_step dropping_world example_lib None ?d = Continue s' \<and>
        data s' = [] \<and> queue s' = [?B] \<and> ?U |\<in>| visited s'"
    using failed_fetch_leaves_store_and_frontier[OF 5 6 7 8, of example_lib 0]
    by (auto simp add: init_fields)
  show ?thesis using a b by blast
qed

text \<open>
  C1. For every \<open>n \<ge> 0\<close>, a crawl of a fresh scraper with \<^verbatim>\<open>max_pages = n\<close> has at most
  \<open>n\<close> visited URLs after any number of passes of the loop, also in the state a pass
  leaves when it raises. The crawl ends, by leaving the loop or with the exception of a
  pass, and the bound holds in the state it ends in. With \<^verbatim>\<open>max_pages = 0\<close> the loop
  condition fails at once: nothing is dequeued (the queue still holds the seed) and
  nothing is fetched.
\<close>

theorem max_pages_bounds_visited:
  assumes "0 \<le> n"
  shows "int (fcard (visited (crawl_iter w l (Some n) k (crawl_begin (init w b d))))) \<le> n \<and>
         (\<exists>r. crawl w l (Some n) (init w b d) = Some r \<and>
              int (fcard (visited (final r))) \<le> n) \<and>
         crawl_step w l (Some 0) (crawl_begin (init w b d)) = Exit \<and>
         crawl w l (Some 0) (init w b d) = Some (Finished (crawl_begin (init w b d))) \<and>
         fetched (crawl_begin (init w b d)) = [] \<and>
         queue (crawl_begin (init w b d)) = [b]"
proof -
  let ?s = "crawl_begin (init w b d)"
  have v0: "int (fcard (visited ?s)) \<le> n"
    using assms by (simp add: crawl_begin_fields init_fields fcard_fempty)
  have bound: "int (fcard (visited (crawl_iter w l (Some n) j ?s))) \<le> n" for j
    using v0 by (rule crawl_iter_visited_bound)
  obtain r where r: "crawl_loop w l (Some n) ?s = Some r"
    using crawl_loop_terminates_bounded by blast
  from crawl_loop_result[OF r] obtain j where "final r = crawl_iter w l (Some n) j ?s"
    by blast
  then have "int (fcard (visited (final r))) \<le> n" using bound by simp
  then have run: "\<exists>r. crawl w l (Some n) (init w b d) = Some r \<and>
               int (fcard (visited (final r))) \<le> n"
    using r by (simp add: crawl_def)
  have exit0: "crawl_step w l (Some 0) ?s = Exit"
    by (simp add: crawl_step_def loop_cond_def)
  then have "crawl_loop w l (Some 0) ?s = Some (Finished ?s)"
    by (rule crawl_loop_exit)
  then have run0: "crawl w l (Some 0) (init w b d) = Some (Finished ?s)"
    by (simp add: crawl_def)
  have "fetched ?s = []" "queue ?s = [b]"
    by (simp_all add: crawl_begin_fields init_fields init_def)
  then show ?thesis using bound run exit0 run0 by blast
qed

theorem max_pages_bounds_visited_witness:
  "(0::int) \<le> 2 \<and>
   int (fcard (visited (crawl_iter example_world example_lib (Some 2) 5
          (crawl_begin (init example_world ''http://example.test/'' 1))))) \<le> 2 \<and>
   (\<exists>r. crawl example_world example_lib (Some 2) (init example_world ''http://example.test/e'' 1) =
          Some r \<and> int (fcard (visited (final r))) \<le> 2) \<and>
   crawl example_world example_lib (Some 0) (init example_world ''http://example.test/'' 1) =
     Some (Finished (crawl_begin (init example_world ''http://example.test/'' 1))) \<and>
   fetched (crawl_begin (init example_world ''http://example.test/'' 1)) = []"
proof -
  have h: "(0::int) \<le> 2" by simp
  have a: "int (fcard (visited (crawl_iter example_world example_lib (Some 2) 5
          (crawl_begin (init example_world ''http://example.test/'' 1))))) \<le> 2 \<and>
      crawl example_world example_lib (Some 0) (init example_world ''http://example.test/'' 1) =
        Some (Finished (crawl_begin (init example_world ''http://example.test/'' 1))) \<and>
      fetched (crawl_begin (init example_world ''http://example.test/'' 1)) = []"
    using max_pages_bounds_visited[OF h, of example_world example_lib 5 "''http://example.test/''" 1]
    by simp
  have b: "\<exists>r. crawl example_world example_lib (Some 2) (init example_world ''http://example.test/e'' 1) =
          Some r \<and> int (fcard (visited (final r))) \<le> 2"
    using max_pages_bounds_visited[OF h, of example_world example_lib 0 "''http://example.test/e''" 1]
    by blast
  show ?thesis using h a b by blast
qed

text \<open>
  C2. In a run of a fresh scraper every URL is fetched at most once, after any number of
  passes and in the state the run ends in, and the URLs fetched are exactly the visited
  ones. A dequeued URL that is already visited is dropped: the pass changes the queue and
  nothing else (no fetch, no log line, no sleep). Otherwise the URL is put into the visited
  set first and \<^verbatim>\<open>fetch_page\<close> is called in that state; the pass leaves the URL fetched
  once more and visited, whether it reaches the sleep or an exception of the parser or of
  the filter ends it before. The visited set never shrinks, in a pass or over a run.
\<close>

theorem url_fetched_at_most_once:
  "count_list (fetched (crawl_iter w l mp k (crawl_begin (init w b d)))) v \<le> 1 \<and>
   fset_of_list (fetched (crawl_iter w l mp k (crawl_begin (init w b d)))) =
     visited (crawl_iter w l mp k (crawl_begin (init w b d))) \<and>
   (crawl w l mp (init w b d) = Some r \<longrightarrow> count_list (fetched (final r)) v \<le> 1) \<and>
   (loop_cond mp s \<and> queue s = u # rest \<and> u |\<in>| visited s \<longrightarrow>
      crawl_step w l mp s = Continue (s\<lparr>queue := rest\<rparr>)) \<and>
   (loop_cond mp s \<and> queue s = u # rest \<and> u |\<notin>| visited s \<longrightarrow>
      u |\<in>| visited (mark_visited u (s\<lparr>queue := rest\<rparr>)) \<and>
      fetched (mark_visited u (s\<lparr>queue := rest\<rparr>)) = fetched s \<and>
      crawl_step w l mp s =
        (case handle_html w l u
                (fst (fetch_page w u (mark_visited u (s\<lparr>queue := rest\<rparr>))))
                (snd (fetch_page w u (mark_visited u (s\<lparr>queue := rest\<rparr>)))) of
           Inl (e, s3) \<Rightarrow> Abort e s3
         | Inr s3 \<Rightarrow> Continue (s3\<lparr>slept := slept s3 @ [delay s3]\<rparr>)) \<and>
      (\<exists>s'. state_after (crawl_step w l mp s) = Some s' \<and> fetched s' = fetched s @ [u] \<and>
            u |\<in>| visited s' \<and>
            ((crawl_step w l mp s = Continue s' \<and> slept s' = slept s @ [delay s]) \<or>
             ((\<exists>e. crawl_step w l mp s = Abort e s') \<and> slept s' = slept s)))) \<and>
   (state_after (crawl_step w l mp s) = Some c \<longrightarrow> visited s |\<subseteq>| visited c) \<and>
   visited s |\<subseteq>| visited (crawl_iter w l mp k s)"
proof (intro conjI impI)
  show "count_list (fetched (crawl_iter w l mp k (crawl_begin (init w b d)))) v \<le> 1"
    by (rule distinct_count_list_le) (use fresh_run_fetched[of w l mp k b d] in blast)
  show "fset_of_list (fetched (crawl_iter w l mp k (crawl_begin (init w b d)))) =
     visited (crawl_iter w l mp k (crawl_begin (init w b d)))"
    using fresh_run_fetched[of w l mp k b d] by simp
  show "visited s |\<subseteq>| visited (crawl_iter w l mp k s)" by (rule crawl_iter_visited_mono)
next
  assume "crawl w l mp (init w b d) = Some r"
  then have "crawl_loop w l mp (crawl_begin (init w b d)) = Some r" by (simp add: crawl_def)
  from crawl_loop_result[OF this] obtain j where
    "final r = crawl_iter w l mp j (crawl_begin (init w b d))" by blast
  then have "distinct (fetched (final r))" using fresh_run_fetched[of w l mp j b d] by simp
  then show "count_list (fetched (final r)) v \<le> 1" by (rule distinct_count_list_le)
next
  assume "loop_cond mp s \<and> queue s = u # rest \<and> u |\<in>| visited s"
  then show "crawl_step w l mp s = Continue (s\<lparr>queue := rest\<rparr>)"
    by (simp add: crawl_step_skip)
next
  assume a: "loop_cond mp s \<and> queue s = u # rest \<and> u |\<notin>| visited s"
  show "u |\<in>| visited (mark_visited u (s\<lparr>queue := rest\<rparr>))"
    by (simp add: mark_visited_def)
  show "fetched (mark_visited u (s\<lparr>queue := rest\<rparr>)) = fetched s"
    by (simp add: mark_visited_def)
  show "crawl_step w l mp s =
        (case handle_html w l u
                (fst (fetch_page w u (mark_visited u (s\<lparr>queue := rest\<rparr>))))
                (snd (fetch_page w u (mark_visited u (s\<lparr>queue := rest\<rparr>)))) of
           Inl (e, s3) \<Rightarrow> Abort e s3
         | Inr s3 \<Rightarrow> Continue (s3\<lparr>slept := slept s3 @ [delay s3]\<rparr>))"
    using a by (simp add: crawl_step_visit_unfold)
  from a have 1: "loop_cond mp s" and 2: "queue s = u # rest" and 3: "u |\<notin>| visited s"
    by simp_all
  from crawl_step_visit_effect[OF 1 2 3, of w l] obtain s' where
    e: "state_after (crawl_step w l mp s) = Some s'" "fetched s' = fetched s @ [u]"
       "visited s' = finsert u (visited s)"
       "(crawl_step w l mp s = Continue s' \<and> slept s' = slept s @ [delay s]) \<or>
        ((\<exists>e. crawl_step w l mp s = Abort e s') \<and> slept s' = slept s)"
    by blast
  have "u |\<in>| visited s'" by (simp add: e(3))
  then show "\<exists>s'. state_after (crawl_step w l mp s) = Some s' \<and> fetched s' = fetched s @ [u] \<and>
            u |\<in>| visited s' \<and>
            ((crawl_step w l mp s = Continue s' \<and> slept s' = slept s @ [delay s]) \<or>
             ((\<exists>e. crawl_step w l mp s = Abort e s') \<and> slept s' = slept s))"
    using e(1,2,4) by blast
next
  assume "state_after (crawl_step w l mp s) = Some c"
  then show "visited s |\<subseteq>| visited c" by (rule step_visited_mono)
qed

theorem url_fetched_at_most_once_witness:
  "count_list (fetched (crawl_iter example_world example_lib None 4
       (crawl_begin (init example_world ''http://example.test/'' 1)))) ''http://example.test/a'' \<le> 1 \<and>
   crawl_step example_world example_lib None
     ((init example_world ''http://example.test/'' 1)
        \<lparr>queue := [''http://example.test/a'', ''http://example.test/b''],
         visited := {|''http://example.test/a''|}\<rparr>) =
     Continue ((init example_world ''http://example.test/'' 1)
        \<lparr>queue := [''http://example.test/b''],
         visited := {|''http://example.test/a''|}\<rparr>) \<and>
   (\<exists>s'. state_after (crawl_step example_world example_lib None
           ((init example_world ''http://example.test/'' 1)\<lparr>queue := [''http://example.test/a'']\<rparr>)) =
         Some s' \<and> fetched s' = [''http://example.test/a''] \<and>
         ''http://example.test/a'' |\<in>| visited s')"
proof -
  let ?S = "init example_world ''http://example.test/'' 1"
  let ?A = "''http://example.test/a''"
  let ?B = "''http://example.test/b''"
  let ?c = "?S\<lparr>queue := [?A, ?B], visited := {|?A|}\<rparr>"
  let ?n = "?S\<lparr>queue := [?A]\<rparr>"
  have once: "count_list (fetched (crawl_iter example_world example_lib None 4
       (crawl_begin ?S))) ?A \<le> 1"
    using url_fetched_at_most_once[where w = example_world and l = example_lib and mp = None
        and k = 4 and b = "''http://example.test/''" and d = 1 and v = ?A]
    by blast
  have pre: "loop_cond None ?c \<and> queue ?c = ?A # [?B] \<and> ?A |\<in>| visited ?c"
    by (simp add: loop_cond_def)
  have skip: "crawl_step example_world example_lib None ?c = Continue (?c\<lparr>queue := [?B]\<rparr>)"
    using url_fetched_at_most_once[where w = example_world and l = example_lib and mp = None
        and s = ?c and u = ?A and rest = "[?B]"] pre
    by blast
  have pre2: "loop_cond None ?n \<and> queue ?n = ?A # [] \<and> ?A |\<notin>| visited ?n"
    by (simp add: loop_cond_def init_fields)
  have visit: "\<exists>s'. state_after (crawl_step example_world example_lib None ?n) = Some s' \<and>
      fetched s' = fetched ?n @ [?A] \<and> ?A |\<in>| visited s'"
    using url_fetched_at_most_once[where w = example_world and l = example_lib and mp = None
        and s = ?n and u = ?A and rest = "[]"] pre2
    by blast
  show ?thesis using once skip visit by (simp add: init_fields)
qed

text \<open>
  C9. \<^verbatim>\<open>should_crawl\<close> reads the visited set: it admits no visited URL, and a URL it admits
  it refuses once the URL is visited. It does not read the queue. So when a page is
  fetched and parsed and the filter raises on none of its links, every occurrence of a link
  that passes the filter is appended, whatever the queue already holds: the number of
  copies of such a URL in the queue grows by the number of its occurrences among the page's
  links. A copy that is dequeued after the URL has been visited is dropped without a fetch,
  and in a run of a fresh scraper no URL is fetched twice.
\<close>

theorem duplicates_enqueued_never_refetched:
  "should_crawl l (s\<lparr>queue := q\<rparr>) v = should_crawl l s v \<and>
   (v |\<in>| visited s \<longrightarrow> should_crawl l s v \<noteq> Returns True) \<and>
   (should_crawl l s v = Returns True \<longrightarrow>
      should_crawl l (s\<lparr>visited := finsert v (visited s)\<rparr>) v = Returns False) \<and>
   (loop_cond mp s \<and> queue s = u # rest \<and> u |\<notin>| visited s \<and>
    parse_page l (now w (Suc (length (fetched s))))
      (fst (fetch_page w u (mark_visited u (s\<lparr>queue := rest\<rparr>)))) u = Returns (PageData p) \<and>
    (\<forall>k\<in>set (links p).
       \<exists>ok. should_crawl l (s\<lparr>visited := finsert u (visited s)\<rparr>) (link_url k) = Returns ok) \<longrightarrow>
      (\<exists>s'. crawl_step w l mp s = Continue s' \<and>
            queue s' =
              rest @ filter (\<lambda>x. should_crawl l (s\<lparr>visited := finsert u (visited s)\<rparr>) x = Returns True)
                       (map link_url (links p)) \<and>
            (should_crawl l (s\<lparr>visited := finsert u (visited s)\<rparr>) v = Returns True \<longrightarrow>
               count_list (queue s') v =
                 count_list rest v + count_list (map link_url (links p)) v))) \<and>
   (loop_cond mp s \<and> queue s = u # rest \<and> u |\<in>| visited s \<longrightarrow>
      (\<exists>s'. crawl_step w l mp s = Continue s' \<and> fetched s' = fetched s \<and> queue s' = rest)) \<and>
   distinct (fetched (crawl_iter w l mp k (crawl_begin (init w b d))))"
proof (intro conjI impI)
  show "should_crawl l (s\<lparr>queue := q\<rparr>) v = should_crawl l s v" by simp
  show "distinct (fetched (crawl_iter w l mp k (crawl_begin (init w b d))))"
    using fresh_run_fetched[of w l mp k b d] by blast
next
  assume "v |\<in>| visited s"
  then show "should_crawl l s v \<noteq> Returns True" by (rule should_crawl_visited)
next
  assume "should_crawl l s v = Returns True"
  then obtain pv pb where "urlparse l v = Returns pv" "urlparse l (base_url s) = Returns pb"
    by (auto simp add: should_crawl_True_iff)
  then show "should_crawl l (s\<lparr>visited := finsert v (visited s)\<rparr>) v = Returns False"
    by (simp add: should_crawl_def)
next
  assume a: "loop_cond mp s \<and> queue s = u # rest \<and> u |\<notin>| visited s \<and>
    parse_page l (now w (Suc (length (fetched s))))
      (fst (fetch_page w u (mark_visited u (s\<lparr>queue := rest\<rparr>)))) u = Returns (PageData p) \<and>
    (\<forall>k\<in>set (links p).
       \<exists>ok. should_crawl l (s\<lparr>visited := finsert u (visited s)\<rparr>) (link_url k) = Returns ok)"
  let ?v = "s\<lparr>visited := finsert u (visited s)\<rparr>"
  let ?new = "filter (\<lambda>x. should_crawl l ?v x = Returns True) (map link_url (links p))"
  from a have 1: "loop_cond mp s" and 2: "queue s = u # rest" and 3: "u |\<notin>| visited s"
    and 4: "parse_page l (now w (Suc (length (fetched s))))
      (fst (fetch_page w u (mark_visited u (s\<lparr>queue := rest\<rparr>)))) u = Returns (PageData p)"
    and 5: "\<forall>k\<in>set (links p). \<exists>ok. should_crawl l ?v (link_url k) = Returns ok"
    by simp_all
  from crawl_step_parsed[OF 1 2 3 4] obtain lg where
    st: "crawl_step w l mp s =
           (case enqueue_links l (links p)
                   (s\<lparr>queue := rest, visited := finsert u (visited s),
                      data := data s @ [PageData p],
                      logged := logged s @ Crawling u # lg,
                      fetched := fetched s @ [u]\<rparr>) of
              Inl (e, s3) \<Rightarrow> Abort e s3
            | Inr s3 \<Rightarrow> Continue (s3\<lparr>slept := slept s3 @ [delay s3]\<rparr>))"
    by blast
  define S where "S = s\<lparr>queue := rest, visited := finsert u (visited s),
                      data := data s @ [PageData p],
                      logged := logged s @ Crawling u # lg,
                      fetched := fetched s @ [u]\<rparr>"
  have st': "crawl_step w l mp s =
           (case enqueue_links l (links p) S of
              Inl (e, s3) \<Rightarrow> Abort e s3
            | Inr s3 \<Rightarrow> Continue (s3\<lparr>slept := slept s3 @ [delay s3]\<rparr>))"
    using st by (simp only: S_def)
  have sc: "should_crawl l S = should_crawl l ?v"
    by (rule should_crawl_cong) (simp_all add: S_def)
  have "\<forall>k\<in>set (links p). \<exists>ok. should_crawl l S (link_url k) = Returns ok"
    using 5 by (simp only: sc)
  from enqueue_links_returns[OF this]
  have en: "enqueue_links l (links p) S = Inr (S\<lparr>queue := queue S @ ?new\<rparr>)"
    by (simp only: sc)
  define s' where "s' = (S\<lparr>queue := queue S @ ?new\<rparr>)\<lparr>slept := slept S @ [delay S]\<rparr>"
  have co: "crawl_step w l mp s = Continue s'"
    by (simp add: st' en s'_def)
  have q: "queue s' = rest @ ?new" by (simp add: s'_def S_def)
  have c: "should_crawl l ?v v = Returns True \<longrightarrow>
             count_list (queue s') v = count_list rest v + count_list (map link_url (links p)) v"
    by (simp add: q count_list_append count_list_filter)
  show "\<exists>s'. crawl_step w l mp s = Continue s' \<and>
            queue s' = rest @ ?new \<and>
            (should_crawl l ?v v = Returns True \<longrightarrow>
               count_list (queue s') v =
                 count_list rest v + count_list (map link_url (links p)) v)"
    using co q c by blast
next
  assume "loop_cond mp s \<and> queue s = u # rest \<and> u |\<in>| visited s"
  then have "crawl_step w l mp s = Continue (s\<lparr>queue := rest\<rparr>)"
    by (simp add: crawl_step_skip)
  then show "\<exists>s'. crawl_step w l mp s = Continue s' \<and> fetched s' = fetched s \<and> queue s' = rest"
    by simp
qed

theorem duplicates_enqueued_never_refetched_witness:
  "should_crawl example_lib (crawl_begin (init example_world ''http://example.test/'' 1))
     ''http://example.test/a'' = Returns True \<and>
   should_crawl example_lib
     ((crawl_begin (init example_world ''http://example.test/'' 1))
        \<lparr>visited := {|''http://example.test/a''|}\<rparr>)
     ''http://example.test/a'' = Returns False \<and>
   (\<exists>s'. crawl_step example_world example_lib None
            (crawl_begin (init example_world ''http://example.test/'' 1)) = Continue s' \<and>
         count_list (queue s') ''http://example.test/a'' = 2) \<and>
   (\<exists>s'. crawl_step example_world example_lib None
            ((init example_world ''http://example.test/'' 1)
               \<lparr>queue := [''http://example.test/a'', ''http://example.test/a''],
                visited := {|''http://example.test/'', ''http://example.test/a''|},
                fetched := [''http://example.test/'', ''http://example.test/a'']\<rparr>) = Continue s' \<and>
         fetched s' = [''http://example.test/'', ''http://example.test/a''] \<and>
         queue s' = [''http://example.test/a''])"
proof -
  let ?seed = "''http://example.test/''"
  let ?A = "''http://example.test/a''"
  let ?s = "crawl_begin (init example_world ?seed 1)"
  let ?c = "(init example_world ?seed 1)
               \<lparr>queue := [?A, ?A], visited := {|?seed, ?A|}, fetched := [?seed, ?A]\<rparr>"
  let ?p = "\<lparr>url = ?seed, timestamp = now example_world (Suc (length (fetched ?s))),
             title = Some ''Seed'',
             links = [\<lparr>link_text = ''A'', link_url = ''http://example.test/a''\<rparr>,
                      \<lparr>link_text = ''A'', link_url = ''http://example.test/a''\<rparr>,
                      \<lparr>link_text = ''B'', link_url = ''http://example.test/b''\<rparr>,
                      \<lparr>link_text = ''C'', link_url = ''http://other.test/c''\<rparr>,
                      \<lparr>link_text = ''D'', link_url = ''http://example.test/d.pdf?x=1''\<rparr>],
             emails = [], phones = [], forms = [], metadata = Map.empty\<rparr>"
  have adm: "should_crawl example_lib ?s ?A = Returns True"
    by (simp add: example_should_crawl example_urlparse crawl_begin_fields init_fields
        init_base_url endswith_any_def endswith_def)
  have ref: "should_crawl example_lib (?s\<lparr>visited := {|?A|}\<rparr>) ?A = Returns False"
    using duplicates_enqueued_never_refetched[where l = example_lib and s = ?s and v = ?A] adm
    by (simp add: crawl_begin_fields init_fields)
  have f: "fst (fetch_page example_world ?seed (mark_visited ?seed (?s\<lparr>queue := []\<rparr>))) =
             Some seed_html"
    by (simp add: fetch_page_eq mark_visited_def crawl_begin_fields init_fields example_get_seed)
  have sc: "should_crawl example_lib (?s\<lparr>visited := finsert ?seed (visited ?s)\<rparr>) ?A = Returns True"
    by (simp add: example_should_crawl example_urlparse crawl_begin_fields init_fields
        init_base_url endswith_any_def endswith_def)
  have all: "\<forall>k\<in>set (links ?p).
      \<exists>ok. should_crawl example_lib (?s\<lparr>visited := finsert ?seed (visited ?s)\<rparr>) (link_url k) =
            Returns ok"
    by (auto simp add: example_should_crawl example_urlparse crawl_begin_fields init_base_url)
  have pre: "loop_cond None ?s \<and> queue ?s = ?seed # [] \<and> ?seed |\<notin>| visited ?s \<and>
      parse_page example_lib (now example_world (Suc (length (fetched ?s))))
        (fst (fetch_page example_world ?seed (mark_visited ?seed (?s\<lparr>queue := []\<rparr>)))) ?seed =
        Returns (PageData ?p)"
    unfolding f example_parse
    by (simp add: loop_cond_def crawl_begin_fields init_fields init_base_url)
  from duplicates_enqueued_never_refetched[where w = example_world and l = example_lib
      and mp = None and s = ?s and u = ?seed and rest = "[]" and v = ?A and p = ?p] pre all sc
  obtain s' where
    st: "crawl_step example_world example_lib None ?s = Continue s'"
    and cnt: "count_list (queue s') ?A =
                count_list [] ?A + count_list (map link_url (links ?p)) ?A"
    by blast
  have "count_list (map link_url (links ?p)) ?A = 2" by simp
  then have first: "\<exists>s'. crawl_step example_world example_lib None ?s = Continue s' \<and>
      count_list (queue s') ?A = 2"
    using st cnt by auto
  have pre2: "loop_cond None ?c \<and> queue ?c = ?A # [?A] \<and> ?A |\<in>| visited ?c"
    by (simp add: loop_cond_def)
  have second: "\<exists>s'. crawl_step example_world example_lib None ?c = Continue s' \<and>
      fetched s' = fetched ?c \<and> queue s' = [?A]"
    using duplicates_enqueued_never_refetched[where w = example_world and l = example_lib
      and mp = None and s = ?c and u = ?A and rest = "[?A]"] pre2
    by blast
  show ?thesis using adm ref first second by simp
qed


end
